theory Spec2Isabelle
  imports Complex_Main "HOL-Library.Multiset"
begin

section \<open>Data model of \<open>main.go\<close>\<close>

text \<open>
  Go's \<open>int64\<close> is modelled by \<open>int\<close>: the theorems below speak about runs in which no
  quantity leaves the 64-bit range.  The one place where the bound of the type is part of
  the algorithm, the sentinel \<open>math.MaxInt64\<close> of \<open>SJFSchedule\<close>, is written out.
  Slice indices and counters (\<open>int\<close> in Go, never negative here) are \<open>nat\<close>.
\<close>

record Process =
  ProcessID :: int
  ArrivalTime :: int
  BurstDuration :: int
  Priority :: int

record TimeSlice =
  PID :: int
  Start :: int
  Stop :: int

text \<open>
  One row of the schedule table.  The source stores the seven columns as strings made with
  \<open>fmt.Sprint\<close>; the model keeps the numbers that are printed.
\<close>

record Row =
  colID :: int
  colPriority :: int
  colBurst :: int
  colArrival :: int
  colWait :: int
  colTurnaround :: int
  colExit :: int

text \<open>
  What a scheduler hands to \<open>outputGantt\<close> and \<open>outputSchedule\<close>.  The three averages are
  \<open>float64\<close> quotients of two integers; the model keeps the exact quotient, and \<open>None\<close>
  where the divisor is zero (Go yields NaN or an infinity there, it does not panic).
\<close>

record Report =
  repGantt :: "TimeSlice list"
  repSchedule :: "Row list"
  repAveWait :: "rat option"
  repAveTurnaround :: "rat option"
  repAveThroughput :: "rat option"

datatype error = IndexOutOfRange

definition MaxInt64 :: int where
  "MaxInt64 = 9223372036854775807"

definition fdiv :: "int \<Rightarrow> int \<Rightarrow> rat option" where
  "fdiv a b = (if b = 0 then None else Some (of_int a / of_int b))"

definition Swap :: "'a list \<Rightarrow> nat \<Rightarrow> nat \<Rightarrow> 'a list" where
  "Swap h i j = h[i := h ! j, j := h ! i]"

definition sumInts :: "int list \<Rightarrow> int" where
  "sumInts nums = foldl (\<lambda>s n. s + n) 0 nums"

section \<open>The Gantt helpers\<close>

definition appendGantt :: "TimeSlice list \<Rightarrow> Process \<Rightarrow> int \<Rightarrow> TimeSlice list" where
  "appendGantt gantt process start =
     (if length gantt = 0 \<or> PID (gantt ! (length gantt - 1)) \<noteq> ProcessID process
      then gantt @ [\<lparr>PID = ProcessID process, Start = start, Stop = 0\<rparr>]
      else gantt)"

definition setStop :: "TimeSlice list \<Rightarrow> int \<Rightarrow> TimeSlice list" where
  "setStop gantt stop =
     (if length gantt > 0
      then gantt[length gantt - 1 := (gantt ! (length gantt - 1))\<lparr>Stop := stop\<rparr>]
      else gantt)"

definition findTurnAroundTimes :: "Process list \<Rightarrow> int list \<Rightarrow> int list" where
  "findTurnAroundTimes processes waitingTimes =
     map (\<lambda>i. BurstDuration (processes ! i) + waitingTimes ! i) [0..<length processes]"

section \<open>\<open>FCFSSchedule\<close>\<close>

text \<open>
  The local variables of \<open>FCFSSchedule\<close>.  \<open>totalWait\<close>, \<open>totalTurnaround\<close> and
  \<open>lastCompletion\<close> are \<open>float64\<close> in the source and only ever hold sums of integers.
  \<open>schedule[i]\<close> is assigned once for each index in increasing order, which the model
  writes as appending a row.
\<close>

record fcfs_vars =
  serviceTime :: int
  totalWait :: int
  totalTurnaround :: int
  lastCompletion :: int
  waitingTime :: int
  schedule :: "Row list"
  gantt :: "TimeSlice list"

definition fcfs_init :: fcfs_vars where
  "fcfs_init = \<lparr>serviceTime = 0, totalWait = 0, totalTurnaround = 0, lastCompletion = 0,
     waitingTime = 0, schedule = [], gantt = []\<rparr>"

definition fcfs_body :: "fcfs_vars \<Rightarrow> Process \<Rightarrow> fcfs_vars" where
  "fcfs_body v p =
     (let w = (if ArrivalTime p > 0 then serviceTime v - ArrivalTime p else waitingTime v);
          start = w + ArrivalTime p;
          turnaround = BurstDuration p + w;
          completion = BurstDuration p + ArrivalTime p + w;
          service = serviceTime v + BurstDuration p
      in \<lparr>serviceTime = service,
          totalWait = totalWait v + w,
          totalTurnaround = totalTurnaround v + turnaround,
          lastCompletion = completion,
          waitingTime = w,
          schedule = schedule v @
            [\<lparr>colID = ProcessID p, colPriority = Priority p, colBurst = BurstDuration p,
              colArrival = ArrivalTime p, colWait = w, colTurnaround = turnaround,
              colExit = completion\<rparr>],
          gantt = gantt v @ [\<lparr>PID = ProcessID p, Start = start, Stop = service\<rparr>]\<rparr>)"

definition fcfs_loop :: "fcfs_vars \<Rightarrow> Process list \<Rightarrow> fcfs_vars" where
  "fcfs_loop v processes = foldl fcfs_body v processes"

text \<open>
  A scheduler returns the caller's slice as the call leaves it, and the report.
  \<open>FCFSSchedule\<close> never assigns to \<open>processes\<close>.
\<close>

definition FCFSSchedule :: "Process list \<Rightarrow> Process list \<times> Report" where
  "FCFSSchedule processes =
     (let v = fcfs_loop fcfs_init processes;
          count = int (length processes)
      in (processes,
          \<lparr>repGantt = gantt v, repSchedule = schedule v,
           repAveWait = fdiv (totalWait v) count,
           repAveTurnaround = fdiv (totalTurnaround v) count,
           repAveThroughput = fdiv count (lastCompletion v)\<rparr>))"

section \<open>\<open>SJFSchedule\<close> (shortest remaining time first)\<close>

text \<open>
  The loop variables of \<open>SJFSchedule\<close>; the source's \<open>t\<close> is \<open>tNow\<close> and its \<open>gantt\<close> is
  \<open>ganttS\<close> here.
\<close>

record sjf_vars =
  remainTime :: "int list"
  tNow :: int
  curIdx :: nat
  ganttS :: "TimeSlice list"
  numsOfCompletion :: nat
  minRemainTime :: int
  isCheck :: bool
  waitingTimes :: "int list"

definition sjf_init :: "Process list \<Rightarrow> sjf_vars" where
  "sjf_init processes =
     \<lparr>remainTime = map BurstDuration processes, tNow = 0, curIdx = 0, ganttS = [],
      numsOfCompletion = 0, minRemainTime = MaxInt64, isCheck = False,
      waitingTimes = replicate (length processes) 0\<rparr>"

definition sjf_scan_body :: "Process list \<Rightarrow> sjf_vars \<Rightarrow> nat \<Rightarrow> sjf_vars" where
  "sjf_scan_body processes v i =
     (if ArrivalTime (processes ! i) \<le> tNow v \<and> remainTime v ! i < minRemainTime v
          \<and> remainTime v ! i > 0
      then v\<lparr>minRemainTime := remainTime v ! i, curIdx := i, isCheck := True\<rparr>
      else v)"

definition sjf_scan :: "Process list \<Rightarrow> sjf_vars \<Rightarrow> sjf_vars" where
  "sjf_scan processes v = foldl (sjf_scan_body processes) v [0..<length processes]"

definition sjf_complete :: "Process list \<Rightarrow> sjf_vars \<Rightarrow> sjf_vars" where
  "sjf_complete processes v =
     (let stop = tNow v + 1;
          w = stop - BurstDuration (processes ! curIdx v) - ArrivalTime (processes ! curIdx v)
      in v\<lparr>numsOfCompletion := numsOfCompletion v + 1,
           isCheck := False,
           ganttS := setStop (ganttS v) stop,
           waitingTimes := (waitingTimes v)[curIdx v := (if w < 0 then 0 else w)]\<rparr>)"

definition sjf_run :: "Process list \<Rightarrow> sjf_vars \<Rightarrow> sjf_vars" where
  "sjf_run processes v =
     (let v1 = v\<lparr>ganttS := appendGantt (ganttS v) (processes ! curIdx v) (tNow v)\<rparr>;
          v2 = v1\<lparr>remainTime := (remainTime v1)[curIdx v1 := remainTime v1 ! curIdx v1 - 1]\<rparr>;
          v3 = v2\<lparr>minRemainTime := remainTime v2 ! curIdx v2\<rparr>;
          v4 = (if minRemainTime v3 = 0 then v3\<lparr>minRemainTime := MaxInt64\<rparr> else v3);
          v5 = (if remainTime v4 ! curIdx v4 = 0 then sjf_complete processes v4 else v4)
      in v5\<lparr>tNow := tNow v5 + 1\<rparr>)"

text \<open>One pass through the body of \<open>for numsOfCompletion < n\<close>.\<close>

definition sjf_iter :: "Process list \<Rightarrow> sjf_vars \<Rightarrow> sjf_vars" where
  "sjf_iter processes v =
     (let v1 = sjf_scan processes v
      in if \<not> isCheck v1 then v1\<lparr>tNow := tNow v1 + 1\<rparr> else sjf_run processes v1)"

text \<open>
  The loop may spin for ever (a process whose burst is not positive is never selected), so
  it runs on fuel: \<open>None\<close> is "still running after that many passes".
\<close>

fun sjf_loop :: "nat \<Rightarrow> Process list \<Rightarrow> sjf_vars \<Rightarrow> sjf_vars option" where
  "sjf_loop 0 processes v =
     (if numsOfCompletion v < length processes then None else Some v)"
| "sjf_loop (Suc k) processes v =
     (if numsOfCompletion v < length processes
      then sjf_loop k processes (sjf_iter processes v) else Some v)"

definition mkRow :: "Process list \<Rightarrow> int list \<Rightarrow> int list \<Rightarrow> nat \<Rightarrow> Row" where
  "mkRow processes ws ts i =
     \<lparr>colID = ProcessID (processes ! i), colPriority = Priority (processes ! i),
      colBurst = BurstDuration (processes ! i), colArrival = ArrivalTime (processes ! i),
      colWait = ws ! i, colTurnaround = ts ! i,
      colExit = BurstDuration (processes ! i) + ArrivalTime (processes ! i) + ws ! i\<rparr>"

text \<open>
  The closing loop shared by \<open>SJFSchedule\<close> and \<open>SJFPrioritySchedule\<close>: the rows, and the
  largest completion time (starting from 0).
\<close>

definition maxCompletion :: "Process list \<Rightarrow> int list \<Rightarrow> int" where
  "maxCompletion processes ws =
     foldl (\<lambda>lc i. let completion =
                      BurstDuration (processes ! i) + ArrivalTime (processes ! i) + ws ! i
                    in if lc < completion then completion else lc)
       0 [0..<length processes]"

definition mkReport :: "Process list \<Rightarrow> TimeSlice list \<Rightarrow> int list \<Rightarrow> int list \<Rightarrow> Report" where
  "mkReport processes g ws ts =
     (let n = int (length processes)
      in \<lparr>repGantt = g,
          repSchedule = map (mkRow processes ws ts) [0..<length processes],
          repAveWait = fdiv (sumInts ws) n,
          repAveTurnaround = fdiv (sumInts ts) n,
          repAveThroughput = fdiv n (maxCompletion processes ws)\<rparr>)"

definition SJFSchedule :: "nat \<Rightarrow> Process list \<Rightarrow> (Process list \<times> Report) option" where
  "SJFSchedule fuel processes =
     (case sjf_loop fuel processes (sjf_init processes) of
        None \<Rightarrow> None
      | Some v \<Rightarrow>
          Some (processes,
                mkReport processes (ganttS v) (waitingTimes v)
                  (findTurnAroundTimes processes (waitingTimes v))))"

section \<open>\<open>sort.Slice\<close>\<close>

text \<open>
  \<open>SJFPrioritySchedule\<close> sorts with \<open>sort.Slice\<close> of the Go library, whose algorithm
  depends on the release and whose documentation promises a sorted permutation and no
  stability.  The scheduler below therefore takes the sorting function as a parameter.
  Two of the library's algorithms are modelled, both with the comparison of the source,
  \<open>processes[i].ArrivalTime < processes[j].ArrivalTime\<close>:
  \<^item> \<open>insertionSort\<close>, the library's \<open>insertionSort_func\<close>, which is all that any release
    runs on a slice of at most 6 elements (and Go 1.19 and later on at most 12);
  \<^item> \<open>quickSortSmall\<close>, the tail of \<open>quickSort_func\<close> of Go 1.6 to 1.18 for a slice of at
    most 12 elements: one pass comparing elements 6 apart, then \<open>insertionSort_func\<close>.
\<close>

definition byArrival :: "Process \<Rightarrow> Process \<Rightarrow> bool" where
  "byArrival a b = (ArrivalTime a < ArrivalTime b)"

fun insertionSort_inner :: "('a \<Rightarrow> 'a \<Rightarrow> bool) \<Rightarrow> 'a list \<Rightarrow> nat \<Rightarrow> 'a list" where
  "insertionSort_inner lt xs 0 = xs"
| "insertionSort_inner lt xs (Suc j) =
     (if lt (xs ! Suc j) (xs ! j) then insertionSort_inner lt (Swap xs (Suc j) j) j
      else xs)"

definition insertionSort :: "('a \<Rightarrow> 'a \<Rightarrow> bool) \<Rightarrow> 'a list \<Rightarrow> 'a list" where
  "insertionSort lt xs = foldl (insertionSort_inner lt) xs [1..<length xs]"



section \<open>\<open>container/heap\<close> over \<open>ProcessMinHeap\<close>\<close>

text \<open>
  \<open>ProcessMinHeap\<close> is a slice of processes ordered by \<open>Priority\<close>; \<open>up\<close>, \<open>down\<close>,
  \<open>heap_Init\<close>, \<open>heap_Push\<close> and \<open>heap_Pop\<close> are the functions of Go's \<open>container/heap\<close>
  applied to it (with the methods \<open>Len\<close>, \<open>Less\<close>, \<open>Swap\<close>, \<open>Push\<close>, \<open>Pop\<close> of the source
  inlined).  For \<open>j = 0\<close> Go computes the parent \<open>(0 - 1) / 2 = 0\<close> by truncation, which is
  what \<open>(j - 1) div 2\<close> gives on \<open>nat\<close>.  \<open>heap.Pop\<close> on an empty heap swaps elements 0 and
  \<open>-1\<close>, an index panic.
\<close>

definition Less :: "Process list \<Rightarrow> nat \<Rightarrow> nat \<Rightarrow> bool" where
  "Less h i j = (Priority (h ! i) < Priority (h ! j))"

function up :: "Process list \<Rightarrow> nat \<Rightarrow> Process list" where
  "up h j =
     (if (j - 1) div 2 = j \<or> \<not> Less h j ((j - 1) div 2) then h
      else up (Swap h ((j - 1) div 2) j) ((j - 1) div 2))"
  by pat_completeness auto
termination
  by (relation "measure snd") auto

text \<open>The child that \<open>down\<close> compares with element \<open>i\<close>: the smaller of the two, the left one first.\<close>

definition down_child :: "Process list \<Rightarrow> nat \<Rightarrow> nat \<Rightarrow> nat" where
  "down_child h i n =
     (if 2 * i + 2 < n \<and> Less h (2 * i + 2) (2 * i + 1) then 2 * i + 2 else 2 * i + 1)"

function down :: "Process list \<Rightarrow> nat \<Rightarrow> nat \<Rightarrow> Process list" where
  "down h i n =
     (if 2 * i + 1 \<ge> n then h
      else if \<not> Less h (down_child h i n) i then h
      else down (Swap h i (down_child h i n)) (down_child h i n) n)"
  by pat_completeness auto
termination
  by (relation "measure (\<lambda>(h, i, n). n - i)") (auto simp: down_child_def)

declare up.simps [simp del]
declare down.simps [simp del]

definition heap_Init :: "Process list \<Rightarrow> Process list" where
  "heap_Init h = foldl (\<lambda>h i. down h i (length h)) h (rev [0..<length h div 2])"

definition heap_Push :: "Process list \<Rightarrow> Process \<Rightarrow> Process list" where
  "heap_Push h x = up (h @ [x]) (length (h @ [x]) - 1)"

definition heap_Pop :: "Process list \<Rightarrow> error + (Process \<times> Process list)" where
  "heap_Pop h =
     (if length h = 0 then Inl IndexOutOfRange
      else (let n = length h - 1;
                h1 = down (Swap h 0 n) 0 n
            in Inr (h1 ! (length h1 - 1), take (length h1 - 1) h1)))"

section \<open>\<open>SJFPrioritySchedule\<close> (preemptive priority)\<close>

text \<open>
  The loop variables of \<open>SJFPrioritySchedule\<close>; its \<open>waitingTimes\<close> and \<open>gantt\<close> are
  \<open>waitingTimesP\<close> and \<open>ganttP\<close> here.  \<open>totalBurstDuration\<close> is written and never read, and
  is left out.
\<close>

record prio_vars =
  turnAroundTimes :: "int list"
  waitingTimesP :: "int list"
  ganttP :: "TimeSlice list"
  insertedProcess :: nat
  currentTime :: int
  minHeap :: "Process list"

text \<open>\<open>processesMapIdx\<close>: a later process with the same id overwrites the entry.\<close>

definition processesMapIdx :: "Process list \<Rightarrow> (int \<rightharpoonup> nat)" where
  "processesMapIdx processes =
     foldl (\<lambda>m i. m(ProcessID (processes ! i) \<mapsto> i)) Map.empty [0..<length processes]"

text \<open>Reading a Go map at a missing key gives the zero value.\<close>

definition mapGet :: "(int \<rightharpoonup> nat) \<Rightarrow> int \<Rightarrow> nat" where
  "mapGet m k = (case m k of None \<Rightarrow> 0 | Some i \<Rightarrow> i)"

definition prio_init :: "int \<Rightarrow> nat \<Rightarrow> prio_vars" where
  "prio_init t0 n =
     \<lparr>turnAroundTimes = replicate n 0, waitingTimesP = replicate n 0, ganttP = [],
      insertedProcess = 0, currentTime = t0, minHeap = heap_Init []\<rparr>"

definition prio_push_body :: "prio_vars \<Rightarrow> Process \<Rightarrow> prio_vars" where
  "prio_push_body v p =
     (if ArrivalTime p \<noteq> currentTime v then v
      else v\<lparr>insertedProcess := insertedProcess v + 1, minHeap := heap_Push (minHeap v) p\<rparr>)"

definition prio_push_arrivals :: "Process list \<Rightarrow> prio_vars \<Rightarrow> prio_vars" where
  "prio_push_arrivals processes v =
     (if insertedProcess v < length processes then foldl prio_push_body v processes else v)"

datatype 'a flow = Break 'a | Continue 'a

definition prio_finish :: "(int \<rightharpoonup> nat) \<Rightarrow> int list \<Rightarrow> Process \<Rightarrow> prio_vars \<Rightarrow> prio_vars" where
  "prio_finish mapIdx tempBurstDuration pMinPriority v =
     (let idx = mapGet mapIdx (ProcessID pMinPriority);
          v1 = v\<lparr>turnAroundTimes :=
                   (turnAroundTimes v)[idx := currentTime v - ArrivalTime pMinPriority]\<rparr>
      in v1\<lparr>waitingTimesP :=
              (waitingTimesP v1)[idx := turnAroundTimes v1 ! idx - tempBurstDuration ! idx]\<rparr>)"

text \<open>
  The tick that follows \<open>heap.Pop\<close>: \<open>p\<close> is the popped process, and \<open>minHeap v\<close> is already
  the heap without it.
\<close>

definition prio_run :: "(int \<rightharpoonup> nat) \<Rightarrow> int list \<Rightarrow> Process \<Rightarrow> prio_vars \<Rightarrow> prio_vars" where
  "prio_run mapIdx tempBurstDuration p v =
     (let pMinPriority = p\<lparr>BurstDuration := BurstDuration p - 1\<rparr>;
          v2 = v\<lparr>ganttP := appendGantt (ganttP v) pMinPriority (currentTime v)\<rparr>;
          v3 = v2\<lparr>currentTime := currentTime v2 + 1\<rparr>;
          v4 = v3\<lparr>ganttP := setStop (ganttP v3) (currentTime v3)\<rparr>
      in if BurstDuration pMinPriority > 0
         then v4\<lparr>minHeap := heap_Push (minHeap v4) pMinPriority\<rparr>
         else prio_finish mapIdx tempBurstDuration pMinPriority v4)"

text \<open>One pass through the body of the endless \<open>for\<close>, ending in its \<open>break\<close> test.\<close>

definition prio_iter ::
  "Process list \<Rightarrow> (int \<rightharpoonup> nat) \<Rightarrow> int list \<Rightarrow> prio_vars \<Rightarrow> error + prio_vars flow" where
  "prio_iter processes mapIdx tempBurstDuration v =
     (let v1 = prio_push_arrivals processes v
      in case heap_Pop (minHeap v1) of
           Inl e \<Rightarrow> Inl e
         | Inr (p, h) \<Rightarrow>
             (let v5 = prio_run mapIdx tempBurstDuration p (v1\<lparr>minHeap := h\<rparr>)
              in if length (minHeap v5) = 0 \<and> insertedProcess v5 = length processes
                 then Inr (Break v5) else Inr (Continue v5)))"

fun prio_loop ::
  "nat \<Rightarrow> Process list \<Rightarrow> (int \<rightharpoonup> nat) \<Rightarrow> int list \<Rightarrow> prio_vars \<Rightarrow> (error + prio_vars) option"
where
  "prio_loop 0 processes mapIdx tempBurstDuration v = None"
| "prio_loop (Suc k) processes mapIdx tempBurstDuration v =
     (case prio_iter processes mapIdx tempBurstDuration v of
        Inl e \<Rightarrow> Some (Inl e)
      | Inr (Break v') \<Rightarrow> Some (Inr v')
      | Inr (Continue v') \<Rightarrow> prio_loop k processes mapIdx tempBurstDuration v')"

text \<open>
  \<open>srt\<close> stands for \<open>sort.Slice\<close> with the comparison of the source.  The clock is read from
  \<open>processes[0]\<close> before the sort (an index panic on an empty slice); the sort works in
  place, so the caller's slice is \<open>srt processes\<close> from then on.
\<close>

definition SJFPrioritySchedule ::
  "(Process list \<Rightarrow> Process list) \<Rightarrow> nat \<Rightarrow> Process list
     \<Rightarrow> (error + Process list \<times> Report) option" where
  "SJFPrioritySchedule srt fuel processes =
     (if length processes = 0 then Some (Inl IndexOutOfRange)
      else (let t0 = ArrivalTime (processes ! 0);
                sorted = srt processes
            in case prio_loop fuel sorted (processesMapIdx sorted)
                      (map BurstDuration sorted) (prio_init t0 (length processes)) of
                 None \<Rightarrow> None
               | Some (Inl e) \<Rightarrow> Some (Inl e)
               | Some (Inr v) \<Rightarrow>
                   Some (Inr (sorted,
                     mkReport sorted (ganttP v) (waitingTimesP v) (turnAroundTimes v)))))"

section \<open>Notions used in the statements\<close>

text \<open>
  The process that \<open>loadProcesses\<close> builds from the CSV row \<open>id,burst,arrival,priority\<close>.
\<close>

definition proc :: "int \<Rightarrow> int \<Rightarrow> int \<Rightarrow> int \<Rightarrow> Process" where
  "proc i b a p = \<lparr>ProcessID = i, ArrivalTime = a, BurstDuration = b, Priority = p\<rparr>"

text \<open>\<open>approx3 x d\<close>: the quotient \<open>x\<close> is finite and is \<open>d\<close> when rounded to three decimals.\<close>

definition approx3 :: "rat option \<Rightarrow> rat \<Rightarrow> bool" where
  "approx3 x d = (case x of None \<Rightarrow> False | Some a \<Rightarrow> \<bar>a - d\<bar> \<le> 1 / 2000)"

text \<open>
  The waiting time of the \<open>i\<close>-th process under first come, first served, in the words of
  the specification: the cumulative burst time of the processes before it minus its arrival
  time when its arrival time is positive, and otherwise the value of the process before it
  (0 for the first).
\<close>

fun fcfs_wait_spec :: "Process list \<Rightarrow> nat \<Rightarrow> int" where
  "fcfs_wait_spec ps 0 = (if ArrivalTime (ps ! 0) > 0 then 0 - ArrivalTime (ps ! 0) else 0)"
| "fcfs_wait_spec ps (Suc i) =
     (if ArrivalTime (ps ! Suc i) > 0
      then sum_list (map BurstDuration (take (Suc i) ps)) - ArrivalTime (ps ! Suc i)
      else fcfs_wait_spec ps i)"

subsection \<open>Timelines\<close>




definition timeline_total :: "TimeSlice list \<Rightarrow> int" where
  "timeline_total g = sum_list (map (\<lambda>s. Stop s - Start s) g)"

text \<open>
  \<open>gantt_chain a g b\<close>: the intervals of \<open>g\<close> are non-empty, each starts where the one
  before it stops, the first at \<open>a\<close> and the last ending at \<open>b\<close>, and adjacent intervals
  belong to different processes.
\<close>

fun gantt_chain :: "int \<Rightarrow> TimeSlice list \<Rightarrow> int \<Rightarrow> bool" where
  "gantt_chain a [] b = (a = b)"
| "gantt_chain a [s] b = (Start s = a \<and> Stop s = b \<and> a < b)"
| "gantt_chain a (s # s' # g) b =
     (Start s = a \<and> a < Stop s \<and> PID s \<noteq> PID s' \<and> gantt_chain (Stop s) (s' # g) b)"

subsection \<open>The states of \<open>SJFSchedule\<close>\<close>

text \<open>
  A process is eligible in a state when it has arrived and has work left.
  \<open>sjf_at ps k\<close> is the state of the loop variables after \<open>k\<close> passes.
\<close>

definition eligible :: "Process list \<Rightarrow> sjf_vars \<Rightarrow> nat \<Rightarrow> bool" where
  "eligible ps v i = (i < length ps \<and> ArrivalTime (ps ! i) \<le> tNow v \<and> remainTime v ! i > 0)"

definition sjf_at :: "Process list \<Rightarrow> nat \<Rightarrow> sjf_vars" where
  "sjf_at ps k = (sjf_iter ps ^^ k) (sjf_init ps)"

text \<open>
  The invariant of the loop: no remaining time has reached the sentinel, and
  \<open>minRemainTime\<close> is the remaining time of the running process while one is running
  (\<open>isCheck\<close>) and the sentinel otherwise.
\<close>

definition sjf_inv :: "Process list \<Rightarrow> sjf_vars \<Rightarrow> bool" where
  "sjf_inv ps v =
     (length (remainTime v) = length ps
      \<and> (\<forall>i<length ps. remainTime v ! i < MaxInt64)
      \<and> (if isCheck v then eligible ps v (curIdx v) \<and> minRemainTime v = remainTime v ! curIdx v
         else minRemainTime v = MaxInt64))"

text \<open>What the scan has established after the indices below \<open>m\<close>.\<close>

definition scanned :: "Process list \<Rightarrow> sjf_vars \<Rightarrow> nat \<Rightarrow> sjf_vars \<Rightarrow> bool" where
  "scanned ps v m w =
     ((isCheck w \<longrightarrow> eligible ps v (curIdx w) \<and> minRemainTime w = remainTime v ! curIdx w)
      \<and> (\<forall>j<m. eligible ps v j \<longrightarrow> minRemainTime w \<le> remainTime v ! j)
      \<and> (w = v \<or> (isCheck w \<and> curIdx w < m \<and> minRemainTime w < minRemainTime v
            \<and> (\<forall>j<curIdx w. eligible ps v j \<longrightarrow> minRemainTime w < remainTime v ! j))))"

subsection \<open>The states of \<open>SJFPrioritySchedule\<close>\<close>

fun flow_val :: "'a flow \<Rightarrow> 'a" where
  "flow_val (Break x) = x"
| "flow_val (Continue x) = x"

text \<open>
  \<open>pushed t0 t p\<close>: process \<open>p\<close> arrived at a tick of the run before \<open>t\<close>, the run
  having started at \<open>t0\<close>.  \<open>prio_count\<close>: the counter \<open>insertedProcess\<close> counts exactly
  those processes.
\<close>

definition pushed :: "int \<Rightarrow> int \<Rightarrow> Process \<Rightarrow> bool" where
  "pushed t0 t p = (t0 \<le> ArrivalTime p \<and> ArrivalTime p < t)"

definition prio_count :: "Process list \<Rightarrow> int \<Rightarrow> prio_vars \<Rightarrow> bool" where
  "prio_count qs t0 v =
     (t0 \<le> currentTime v
      \<and> insertedProcess v = length (filter (pushed t0 (currentTime v)) qs))"

text \<open>
  \<open>tracked\<close>: a heap element is one of the processes, with its arrival time in the past
  and no more ticks executed than have passed since its arrival.  \<open>row_done\<close>: the two
  statistics of row \<open>i\<close> are written and consistent.  \<open>prio_stats\<close>: every process that
  has arrived is either in the heap or has its row done.
\<close>

definition tracked :: "Process list \<Rightarrow> int \<Rightarrow> int \<Rightarrow> Process \<Rightarrow> bool" where
  "tracked qs t0 t h =
     (\<exists>i<length qs. ProcessID h = ProcessID (qs ! i) \<and> ArrivalTime h = ArrivalTime (qs ! i)
        \<and> t0 \<le> ArrivalTime h \<and> ArrivalTime h \<le> t
        \<and> BurstDuration (qs ! i) - BurstDuration h \<le> t - ArrivalTime h)"

definition row_done :: "Process list \<Rightarrow> prio_vars \<Rightarrow> nat \<Rightarrow> bool" where
  "row_done qs v i =
     (turnAroundTimes v ! i = BurstDuration (qs ! i) + waitingTimesP v ! i
      \<and> 0 \<le> waitingTimesP v ! i)"

definition prio_stats :: "Process list \<Rightarrow> int \<Rightarrow> prio_vars \<Rightarrow> bool" where
  "prio_stats qs t0 v =
     (length (turnAroundTimes v) = length qs \<and> length (waitingTimesP v) = length qs
      \<and> (\<forall>h\<in>set (minHeap v). tracked qs t0 (currentTime v) h)
      \<and> (\<forall>i<length qs. pushed t0 (currentTime v) (qs ! i) \<longrightarrow>
            row_done qs v i \<or> (\<exists>h\<in>set (minHeap v). ProcessID h = ProcessID (qs ! i))))"

text \<open>
  \<open>prio_work\<close>: the bursts left in the heap and the ticks executed add up to the bursts
  of the processes that have arrived.
\<close>

definition prio_work :: "Process list \<Rightarrow> int \<Rightarrow> prio_vars \<Rightarrow> bool" where
  "prio_work qs t0 v =
     ((\<forall>h\<in>set (minHeap v). 1 \<le> BurstDuration h)
      \<and> sum_list (map BurstDuration (minHeap v)) + (currentTime v - t0)
          = sum_list (map BurstDuration (filter (pushed t0 (currentTime v)) qs)))"

subsection \<open>The schedule table\<close>

text \<open>
  \<open>row_ok\<close>: the two identities between the columns of a row.  \<open>rows_of ps rows\<close>: the
  table has one row for each process of \<open>ps\<close>, in the order of \<open>ps\<close>, carrying its id,
  priority, burst and arrival time.
\<close>

definition row_ok :: "Row \<Rightarrow> bool" where
  "row_ok r =
     (colTurnaround r = colBurst r + colWait r
      \<and> colExit r = colArrival r + colWait r + colBurst r)"

definition rows_of :: "Process list \<Rightarrow> Row list \<Rightarrow> bool" where
  "rows_of ps rows =
     (map (\<lambda>r. (colID r, colPriority r, colBurst r, colArrival r)) rows
        = map (\<lambda>p. (ProcessID p, Priority p, BurstDuration p, ArrivalTime p)) ps)"

text \<open>\<open>waits_ok n ws\<close>: there are \<open>n\<close> waiting times and none is negative.\<close>

definition waits_ok :: "nat \<Rightarrow> int list \<Rightarrow> bool" where
  "waits_ok n ws = (length ws = n \<and> (\<forall>x\<in>set ws. 0 \<le> x))"

text \<open>
  The inputs on which \<open>FCFSSchedule\<close> never reuses the waiting time of an earlier
  process: positive bursts, no negative arrival time, a positive arrival time for every
  process but the first, and neighbours with different ids.
\<close>

definition fcfs_regular :: "Process list \<Rightarrow> bool" where
  "fcfs_regular ps =
     ((\<forall>p\<in>set ps. 0 < BurstDuration p \<and> 0 \<le> ArrivalTime p)
      \<and> (\<forall>p\<in>set (tl ps). 0 < ArrivalTime p)
      \<and> distinct_adj (map ProcessID ps))"

subsection \<open>Measures of the work left\<close>

text \<open>
  For \<open>SJFSchedule\<close>: \<open>zeros\<close> counts the remaining times that are 0; \<open>sjf_progress\<close> adds
  to the invariant that no remaining time is negative and that \<open>numsOfCompletion\<close> is
  that count; \<open>sjf_measure\<close> is the work left plus the ticks until the last arrival.
\<close>

definition zeros :: "int list \<Rightarrow> int" where
  "zeros rs = sum_list (map (\<lambda>r. if r = 0 then 1 else 0) rs)"

definition sjf_progress :: "Process list \<Rightarrow> sjf_vars \<Rightarrow> bool" where
  "sjf_progress ps v =
     (sjf_inv ps v \<and> (\<forall>i<length ps. 0 \<le> remainTime v ! i)
      \<and> int (numsOfCompletion v) = zeros (remainTime v))"

definition sjf_measure :: "Process list \<Rightarrow> sjf_vars \<Rightarrow> nat" where
  "sjf_measure ps v =
     nat (sum_list (remainTime v))
     + nat (Max (insert 0 (set (map ArrivalTime ps))) - tNow v)"

text \<open>
  For \<open>SJFPrioritySchedule\<close>: a process occupies the processor for as many ticks as its
  burst, and for one tick when its burst is not positive; \<open>prio_measure\<close> adds these up
  over the heap and over the processes still to arrive.
\<close>

definition weight :: "Process \<Rightarrow> int" where
  "weight p = max 1 (BurstDuration p)"

definition prio_measure :: "Process list \<Rightarrow> prio_vars \<Rightarrow> int" where
  "prio_measure qs v =
     sum_list (map weight (minHeap v))
     + sum_list (map weight (filter (\<lambda>q. currentTime v \<le> ArrivalTime q) qs))"

section \<open>Properties of \<open>FCFSSchedule\<close>\<close>

lemma fcfs_wait_spec_append:
  "i < length ps \<Longrightarrow> fcfs_wait_spec (ps @ qs) i = fcfs_wait_spec ps i"
  by (induction i) (simp_all add: nth_append)

lemma fcfs_loop_snoc: "fcfs_loop v (ps @ [p]) = fcfs_body (fcfs_loop v ps) p"
  by (simp add: fcfs_loop_def)

lemma fcfs_body_fields:
  "serviceTime (fcfs_body v p) = serviceTime v + BurstDuration p"
  "waitingTime (fcfs_body v p) =
     (if ArrivalTime p > 0 then serviceTime v - ArrivalTime p else waitingTime v)"
  "schedule (fcfs_body v p) = schedule v @
     [\<lparr>colID = ProcessID p, colPriority = Priority p, colBurst = BurstDuration p,
       colArrival = ArrivalTime p, colWait = waitingTime (fcfs_body v p),
       colTurnaround = BurstDuration p + waitingTime (fcfs_body v p),
       colExit = BurstDuration p + ArrivalTime p + waitingTime (fcfs_body v p)\<rparr>]"
  "gantt (fcfs_body v p) = gantt v @
     [\<lparr>PID = ProcessID p, Start = waitingTime (fcfs_body v p) + ArrivalTime p,
       Stop = serviceTime v + BurstDuration p\<rparr>]"
  by (simp_all add: fcfs_body_def Let_def)

lemma fcfs_loop_service:
  "serviceTime (fcfs_loop fcfs_init ps) = sum_list (map BurstDuration ps)"
  by (induction ps rule: rev_induct)
     (simp_all add: fcfs_loop_snoc fcfs_body_fields, simp add: fcfs_loop_def fcfs_init_def)

lemma fcfs_loop_length:
  "length (schedule (fcfs_loop fcfs_init ps)) = length ps"
  by (induction ps rule: rev_induct)
     (simp_all add: fcfs_loop_snoc fcfs_body_fields, simp add: fcfs_loop_def fcfs_init_def)

lemma fcfs_loop_waiting:
  "waitingTime (fcfs_loop fcfs_init ps) =
     (if ps = [] then 0 else fcfs_wait_spec ps (length ps - 1))"
proof (induction ps rule: rev_induct)
  case Nil
  show ?case by (simp add: fcfs_loop_def fcfs_init_def)
next
  case (snoc p ps)
  show ?case
  proof (cases "ps = []")
    case True
    then show ?thesis
      by (simp add: fcfs_loop_def fcfs_body_fields fcfs_init_def)
  next
    case False
    then obtain k where k: "length ps = Suc k"
      by (cases ps) simp_all
    have a: "fcfs_wait_spec (ps @ [p]) k = fcfs_wait_spec ps k"
      using k by (simp add: fcfs_wait_spec_append)
    have b: "waitingTime (fcfs_loop fcfs_init ps) = fcfs_wait_spec ps k"
      using snoc False k by simp
    show ?thesis
      using a b k
      by (simp add: fcfs_loop_snoc fcfs_body_fields fcfs_loop_service nth_append)
  qed
qed

lemma fcfs_loop_rows:
  "i < length ps \<Longrightarrow> colWait (schedule (fcfs_loop fcfs_init ps) ! i) = fcfs_wait_spec ps i"
proof (induction ps rule: rev_induct)
  case Nil
  then show ?case by simp
next
  case (snoc p ps)
  show ?case
  proof (cases "i < length ps")
    case True
    then show ?thesis
      using snoc.IH
      by (simp add: fcfs_loop_snoc fcfs_body_fields(3) nth_append fcfs_loop_length
          fcfs_wait_spec_append)
  next
    case False
    then have i: "i = length ps" using snoc.prems by simp
    have "waitingTime (fcfs_loop fcfs_init (ps @ [p])) = fcfs_wait_spec (ps @ [p]) (length ps)"
      using fcfs_loop_waiting [of "ps @ [p]"] by simp
    then show ?thesis
      using i by (simp add: fcfs_loop_snoc fcfs_body_fields(3) nth_append fcfs_loop_length)
  qed
qed

text \<open>
  Claim C3.  In first come, first served, the waiting time reported for the \<open>i\<close>-th process
  of the input is recomputed as service time minus arrival time only when its arrival time
  is positive, and is otherwise the value carried over from the process before it
  (initially 0); the service time then grows by the burst of that process.
\<close>

theorem C3_fcfs_waiting_carry_over:
  assumes "i < length ps"
  shows "colWait (repSchedule (snd (FCFSSchedule ps)) ! i) = fcfs_wait_spec ps i
       \<and> serviceTime (fcfs_loop fcfs_init (take (Suc i) ps))
           = serviceTime (fcfs_loop fcfs_init (take i ps)) + BurstDuration (ps ! i)"
proof -
  have "take (Suc i) ps = take i ps @ [ps ! i]"
    using assms by (simp add: take_Suc_conv_app_nth)
  then show ?thesis
    using assms fcfs_loop_rows [of i ps]
    by (simp add: FCFSSchedule_def Let_def fcfs_loop_snoc fcfs_body_fields(1))
qed

theorem C3_fcfs_waiting_carry_over_witness:
  "(1::nat) < length [proc 1 4 2 0, proc 2 3 0 0]
   \<and> colWait (repSchedule (snd (FCFSSchedule [proc 1 4 2 0, proc 2 3 0 0])) ! 1)
       = fcfs_wait_spec [proc 1 4 2 0, proc 2 3 0 0] 1
   \<and> fcfs_wait_spec [proc 1 4 2 0, proc 2 3 0 0] 1 = - 2
   \<and> serviceTime (fcfs_loop fcfs_init (take (Suc 1) [proc 1 4 2 0, proc 2 3 0 0]))
       = serviceTime (fcfs_loop fcfs_init (take 1 [proc 1 4 2 0, proc 2 3 0 0]))
         + BurstDuration ([proc 1 4 2 0, proc 2 3 0 0] ! 1)"
  using C3_fcfs_waiting_carry_over [of 1 "[proc 1 4 2 0, proc 2 3 0 0]"]
  by (simp add: proc_def)

text \<open>
  Claim C6.  The first come, first served scenario of the specification: waiting times
  \<open>[0, 3, 5]\<close>, turnaround times \<open>[4, 6, 7]\<close>, completion times \<open>[4, 7, 9]\<close>, the timeline
  \<open>[P1:0-4, P2:4-7, P3:7-9]\<close>, and averages that round to 2.667, 5.667 and 0.333.
\<close>

theorem C6_fcfs_scenario:
  "map colWait (repSchedule (snd (FCFSSchedule [proc 1 4 0 0, proc 2 3 1 0, proc 3 2 2 0])))
     = [0, 3, 5]
   \<and> map colTurnaround (repSchedule (snd (FCFSSchedule [proc 1 4 0 0, proc 2 3 1 0, proc 3 2 2 0])))
     = [4, 6, 7]
   \<and> map colExit (repSchedule (snd (FCFSSchedule [proc 1 4 0 0, proc 2 3 1 0, proc 3 2 2 0])))
     = [4, 7, 9]
   \<and> repGantt (snd (FCFSSchedule [proc 1 4 0 0, proc 2 3 1 0, proc 3 2 2 0]))
     = [\<lparr>PID = 1, Start = 0, Stop = 4\<rparr>, \<lparr>PID = 2, Start = 4, Stop = 7\<rparr>,
        \<lparr>PID = 3, Start = 7, Stop = 9\<rparr>]
   \<and> approx3 (repAveWait (snd (FCFSSchedule [proc 1 4 0 0, proc 2 3 1 0, proc 3 2 2 0])))
        (2667 / 1000)
   \<and> approx3 (repAveTurnaround (snd (FCFSSchedule [proc 1 4 0 0, proc 2 3 1 0, proc 3 2 2 0])))
        (5667 / 1000)
   \<and> approx3 (repAveThroughput (snd (FCFSSchedule [proc 1 4 0 0, proc 2 3 1 0, proc 3 2 2 0])))
        (333 / 1000)"
  by (simp add: FCFSSchedule_def fcfs_loop_def fcfs_body_def fcfs_init_def fdiv_def proc_def
      approx3_def Let_def)

section \<open>Fuel\<close>

text \<open>A run that has ended with some fuel ends the same way with more.\<close>

lemma sjf_loop_more_fuel:
  "sjf_loop k ps v = Some w \<Longrightarrow> sjf_loop (k + j) ps v = Some w"
proof (induction k arbitrary: v)
  case 0
  then show ?case by (cases j) (simp_all split: if_splits)
next
  case (Suc k)
  then show ?case by (simp split: if_splits)
qed

lemma SJFSchedule_more_fuel:
  "SJFSchedule k ps = Some r \<Longrightarrow> SJFSchedule (k + j) ps = Some r"
  by (auto simp: SJFSchedule_def split: option.splits dest: sjf_loop_more_fuel [where j = j])

lemma prio_loop_more_fuel:
  "prio_loop k ps m tb v = Some r \<Longrightarrow> prio_loop (k + j) ps m tb v = Some r"
proof (induction k arbitrary: v)
  case 0
  then show ?case by simp
next
  case (Suc k)
  then show ?case by (simp split: sum.splits flow.splits)
qed

lemma SJFPrioritySchedule_more_fuel:
  "SJFPrioritySchedule srt k ps = Some r \<Longrightarrow> SJFPrioritySchedule srt (k + j) ps = Some r"
  by (auto simp: SJFPrioritySchedule_def Let_def split: option.splits sum.splits if_splits
      dest: prio_loop_more_fuel [where j = j])

section \<open>Properties of \<open>SJFSchedule\<close>\<close>

text \<open>
  Claim C5.  The run of the scenario \<open>P1(burst 5, arrival 0), P2(burst 2, arrival 1)\<close>
  under shortest remaining time first.  Waiting, turnaround and completion times are
  \<open>[2, 0]\<close>, \<open>[7, 2]\<close> and \<open>[7, 3]\<close>; the timeline is \<open>[P1:0-0, P2:1-3, P1:3-7]\<close>: the stop
  of the interval that \<open>P2\<close> preempts is never written, \<open>setStop\<close> being called only when a
  process completes.
\<close>

theorem C5_srtf_scenario_first_stop_unset:
  "SJFSchedule (7 + j) [proc 1 5 0 0, proc 2 2 1 0] = Some
    ([proc 1 5 0 0, proc 2 2 1 0],
     \<lparr>repGantt = [\<lparr>PID = 1, Start = 0, Stop = 0\<rparr>, \<lparr>PID = 2, Start = 1, Stop = 3\<rparr>,
         \<lparr>PID = 1, Start = 3, Stop = 7\<rparr>],
      repSchedule =
        [\<lparr>colID = 1, colPriority = 0, colBurst = 5, colArrival = 0,
            colWait = 2, colTurnaround = 7, colExit = 7\<rparr>,
         \<lparr>colID = 2, colPriority = 0, colBurst = 2, colArrival = 1,
            colWait = 0, colTurnaround = 2, colExit = 3\<rparr>],
      repAveWait = Some 1, repAveTurnaround = Some (9 / 2),
      repAveThroughput = Some (2 / 7)\<rparr>)"
proof (rule SJFSchedule_more_fuel)
  show "SJFSchedule 7 [proc 1 5 0 0, proc 2 2 1 0] = Some
    ([proc 1 5 0 0, proc 2 2 1 0],
     \<lparr>repGantt = [\<lparr>PID = 1, Start = 0, Stop = 0\<rparr>, \<lparr>PID = 2, Start = 1, Stop = 3\<rparr>,
         \<lparr>PID = 1, Start = 3, Stop = 7\<rparr>],
      repSchedule =
        [\<lparr>colID = 1, colPriority = 0, colBurst = 5, colArrival = 0,
            colWait = 2, colTurnaround = 7, colExit = 7\<rparr>,
         \<lparr>colID = 2, colPriority = 0, colBurst = 2, colArrival = 1,
            colWait = 0, colTurnaround = 2, colExit = 3\<rparr>],
      repAveWait = Some 1, repAveTurnaround = Some (9 / 2),
      repAveThroughput = Some (2 / 7)\<rparr>)"
    by code_simp
qed

subsection \<open>The scan for the process to run\<close>

lemma scan_body_fields:
  "remainTime (sjf_scan_body ps v i) = remainTime v"
  "tNow (sjf_scan_body ps v i) = tNow v"
  "ganttS (sjf_scan_body ps v i) = ganttS v"
  "numsOfCompletion (sjf_scan_body ps v i) = numsOfCompletion v"
  "waitingTimes (sjf_scan_body ps v i) = waitingTimes v"
  by (simp_all add: sjf_scan_body_def)

lemma scan_fold_fields:
  "remainTime (foldl (sjf_scan_body ps) v is) = remainTime v"
  "tNow (foldl (sjf_scan_body ps) v is) = tNow v"
  "ganttS (foldl (sjf_scan_body ps) v is) = ganttS v"
  "numsOfCompletion (foldl (sjf_scan_body ps) v is) = numsOfCompletion v"
  "waitingTimes (foldl (sjf_scan_body ps) v is) = waitingTimes v"
  by (induction "is" arbitrary: v) (simp_all add: scan_body_fields)

lemma scan_fields:
  "remainTime (sjf_scan ps v) = remainTime v"
  "tNow (sjf_scan ps v) = tNow v"
  "ganttS (sjf_scan ps v) = ganttS v"
  "numsOfCompletion (sjf_scan ps v) = numsOfCompletion v"
  "waitingTimes (sjf_scan ps v) = waitingTimes v"
  by (simp_all add: sjf_scan_def scan_fold_fields)

lemma eligible_scan_body: "eligible ps (sjf_scan_body ps v i) = eligible ps v"
  by (simp add: eligible_def fun_eq_iff scan_body_fields)

lemma scanned_step:
  assumes "scanned ps v m w" and "m < length ps" and "remainTime w = remainTime v"
    and "tNow w = tNow v"
  shows "scanned ps v (Suc m) (sjf_scan_body ps w m)"
proof (cases "ArrivalTime (ps ! m) \<le> tNow w \<and> remainTime w ! m < minRemainTime w
          \<and> remainTime w ! m > 0")
  case True
  then have w': "sjf_scan_body ps w m
      = w\<lparr>minRemainTime := remainTime w ! m, curIdx := m, isCheck := True\<rparr>"
    by (simp add: sjf_scan_body_def)
  have el: "eligible ps v m"
    using True assms by (simp add: eligible_def)
  have le: "minRemainTime w \<le> minRemainTime v"
    using assms(1) by (auto simp: scanned_def)
  have low: "\<forall>j<m. eligible ps v j \<longrightarrow> remainTime v ! m < remainTime v ! j"
    using assms(1,3) True by (fastforce simp: scanned_def)
  show ?thesis
    unfolding scanned_def w'
    using el le low True assms(3) by (auto simp: less_Suc_eq)
next
  case False
  then have w': "sjf_scan_body ps w m = w"
    unfolding sjf_scan_body_def by (rule if_not_P)
  have "eligible ps v m \<longrightarrow> minRemainTime w \<le> remainTime v ! m"
    using False assms by (auto simp: eligible_def)
  then show ?thesis
    unfolding w' using assms(1) by (auto simp: scanned_def less_Suc_eq)
qed

lemma scanned_upto:
  assumes "isCheck v \<longrightarrow> eligible ps v (curIdx v) \<and> minRemainTime v = remainTime v ! curIdx v"
  shows "m \<le> length ps \<Longrightarrow> scanned ps v m (foldl (sjf_scan_body ps) v [0..<m])"
proof (induction m)
  case 0
  then show ?case using assms by (simp add: scanned_def)
next
  case (Suc m)
  then show ?case
    using scanned_step [of ps v m "foldl (sjf_scan_body ps) v [0..<m]"]
    by (simp add: scan_fold_fields)
qed

lemma scanned_scan:
  assumes "sjf_inv ps v"
  shows "scanned ps v (length ps) (sjf_scan ps v)"
  unfolding sjf_scan_def
  using assms by (intro scanned_upto) (auto simp: sjf_inv_def split: if_splits)

lemma scan_idle:
  assumes "sjf_inv ps v" and "\<not> isCheck (sjf_scan ps v)"
  shows "sjf_scan ps v = v" and "\<not> eligible ps v j"
proof -
  have s: "scanned ps v (length ps) (sjf_scan ps v)"
    using assms(1) by (rule scanned_scan)
  then show eq: "sjf_scan ps v = v"
    using assms(2) by (auto simp: scanned_def)
  then have "minRemainTime v = MaxInt64"
    using assms by (simp add: sjf_inv_def)
  then have "\<forall>j<length ps. eligible ps v j \<longrightarrow> MaxInt64 \<le> remainTime v ! j"
    using s eq by (simp add: scanned_def)
  moreover have "\<forall>j<length ps. remainTime v ! j < MaxInt64"
    using assms(1) by (simp add: sjf_inv_def)
  ultimately show "\<not> eligible ps v j"
    by (fastforce simp: eligible_def)
qed

lemma scan_selected:
  assumes "sjf_inv ps v" and "isCheck (sjf_scan ps v)"
  shows "eligible ps v (curIdx (sjf_scan ps v))"
    and "eligible ps v j \<Longrightarrow> remainTime v ! curIdx (sjf_scan ps v) \<le> remainTime v ! j"
    and "minRemainTime (sjf_scan ps v) = remainTime v ! curIdx (sjf_scan ps v)"
  using scanned_scan [OF assms(1)] assms(2)
  by (auto simp: scanned_def eligible_def)

lemma scan_ties:
  assumes inv: "sjf_inv ps v" and chk: "isCheck (sjf_scan ps v)"
  shows "if isCheck v \<and> (\<forall>j. eligible ps v j \<longrightarrow> remainTime v ! curIdx v \<le> remainTime v ! j)
         then curIdx (sjf_scan ps v) = curIdx v
         else (\<forall>j<curIdx (sjf_scan ps v). eligible ps v j \<longrightarrow>
                 remainTime v ! curIdx (sjf_scan ps v) < remainTime v ! j)"
proof -
  define w where "w = sjf_scan ps v"
  have s: "scanned ps v (length ps) w"
    unfolding w_def using inv by (rule scanned_scan)
  have sel: "eligible ps v (curIdx w)" "minRemainTime w = remainTime v ! curIdx w"
    using s chk by (simp_all add: scanned_def w_def)
  show ?thesis
  proof (cases "isCheck v \<and> (\<forall>j. eligible ps v j \<longrightarrow> remainTime v ! curIdx v \<le> remainTime v ! j)")
    case True
    then have "minRemainTime v = remainTime v ! curIdx v"
      using inv by (simp add: sjf_inv_def)
    moreover have "remainTime v ! curIdx v \<le> remainTime v ! curIdx w"
      using True sel by simp
    ultimately have "w = v"
      using s sel by (auto simp: scanned_def)
    then show ?thesis
      using True by (simp add: w_def)
  next
    case False
    have "w \<noteq> v"
    proof
      assume eq: "w = v"
      then have "isCheck v" using chk by (simp add: w_def)
      moreover have "\<forall>j. eligible ps v j \<longrightarrow> remainTime v ! curIdx v \<le> remainTime v ! j"
        using s sel eq by (auto simp: scanned_def eligible_def)
      ultimately show False using False by simp
    qed
    then have "\<forall>j<curIdx w. eligible ps v j \<longrightarrow> remainTime v ! curIdx w < remainTime v ! j"
      using s sel by (auto simp: scanned_def)
    then show ?thesis
      by (subst if_not_P [OF False]) (simp add: w_def)
  qed
qed

subsection \<open>The loop invariant\<close>

lemma sjf_run_fields:
  "tNow (sjf_run ps v) = tNow v + 1"
  "curIdx (sjf_run ps v) = curIdx v"
  "remainTime (sjf_run ps v) = (remainTime v)[curIdx v := remainTime v ! curIdx v - 1]"
  by (simp_all add: sjf_run_def sjf_complete_def Let_def)

lemma sjf_run_check:
  assumes "curIdx v < length (remainTime v)" and "isCheck v"
  shows "isCheck (sjf_run ps v) \<longleftrightarrow> remainTime v ! curIdx v - 1 \<noteq> 0"
    and "minRemainTime (sjf_run ps v)
           = (if remainTime v ! curIdx v - 1 = 0 then MaxInt64 else remainTime v ! curIdx v - 1)"
  using assms by (simp_all add: sjf_run_def sjf_complete_def Let_def)

lemma sjf_run_waiting:
  "waitingTimes (sjf_run ps v) = waitingTimes v
   \<or> waitingTimes (sjf_run ps v)
       = (waitingTimes v)[curIdx v :=
            max 0 (tNow v + 1 - BurstDuration (ps ! curIdx v) - ArrivalTime (ps ! curIdx v))]"
  by (simp add: sjf_run_def sjf_complete_def Let_def max_def)

lemma sjf_iter_inv:
  assumes "sjf_inv ps v"
  shows "sjf_inv ps (sjf_iter ps v)"
proof (cases "isCheck (sjf_scan ps v)")
  case False
  then have "sjf_scan ps v = v"
    using assms by (rule scan_idle(1) [rotated])
  then have "sjf_iter ps v = v\<lparr>tNow := tNow v + 1\<rparr>" and "\<not> isCheck v"
    using False by (simp_all add: sjf_iter_def)
  then show ?thesis
    using assms by (simp add: sjf_inv_def)
next
  case True
  define w where "w = sjf_scan ps v"
  have it: "sjf_iter ps v = sjf_run ps w"
    using True by (simp add: sjf_iter_def w_def)
  have el: "eligible ps v (curIdx w)" and mn: "minRemainTime w = remainTime v ! curIdx w"
    using scan_selected [OF assms True] by (simp_all add: w_def)
  have rw: "remainTime w = remainTime v" "tNow w = tNow v"
    by (simp_all add: w_def scan_fields)
  have len: "length (remainTime v) = length ps" and lt: "\<forall>i<length ps. remainTime v ! i < MaxInt64"
    using assms by (simp_all add: sjf_inv_def)
  have c: "curIdx w < length (remainTime w)"
    using el len rw by (simp add: eligible_def)
  have chk: "isCheck w" using True by (simp add: w_def)
  have pos: "0 < remainTime v ! curIdx w" and arr: "ArrivalTime (ps ! curIdx w) \<le> tNow v"
    using el by (simp_all add: eligible_def)
  have bound: "\<forall>i<length ps. (remainTime v)[curIdx w := remainTime v ! curIdx w - 1] ! i < MaxInt64"
  proof (intro allI impI)
    fix i assume i: "i < length ps"
    show "(remainTime v)[curIdx w := remainTime v ! curIdx w - 1] ! i < MaxInt64"
    proof (cases "i = curIdx w")
      case True
      then show ?thesis using lt [rule_format, of "curIdx w"] i len by simp
    next
      case False
      then show ?thesis using lt i by simp
    qed
  qed
  show ?thesis
    unfolding sjf_inv_def it sjf_run_fields sjf_run_check [OF c chk] rw
    using len bound pos arr c rw
    by (simp add: eligible_def sjf_run_fields)
qed

lemma sjf_init_inv:
  "\<forall>p\<in>set ps. BurstDuration p < MaxInt64 \<Longrightarrow> sjf_inv ps (sjf_init ps)"
  by (simp add: sjf_inv_def sjf_init_def)

lemma sjf_at_inv:
  "\<forall>p\<in>set ps. BurstDuration p < MaxInt64 \<Longrightarrow> sjf_inv ps (sjf_at ps k)"
  by (induction k) (simp_all add: sjf_at_def sjf_init_inv sjf_iter_inv)

text \<open>
  Claim C4, as the code has it.  At every tick of shortest remaining time first (in the
  state after any number \<open>k\<close> of passes, all bursts being below the sentinel) the scan
  selects an eligible process whose remaining time is the smallest among the eligible ones.
  On a tie the process that ran in the tick before keeps the processor if it is among the
  smallest; otherwise the selected process is the one of lowest index among the smallest.
  When no process is eligible the pass is idle: only \<open>t\<close> changes, by one, and the
  timeline is as it was.
\<close>

theorem C4_srtf_selection:
  assumes "\<forall>p\<in>set ps. BurstDuration p < MaxInt64"
  shows "let v = sjf_at ps k; w = sjf_scan ps v in
    (isCheck w \<longrightarrow>
       eligible ps v (curIdx w)
       \<and> (\<forall>j. eligible ps v j \<longrightarrow> remainTime v ! curIdx w \<le> remainTime v ! j)
       \<and> (if isCheck v \<and> (\<forall>j. eligible ps v j \<longrightarrow> remainTime v ! curIdx v \<le> remainTime v ! j)
          then curIdx w = curIdx v
          else (\<forall>j<curIdx w. eligible ps v j \<longrightarrow> remainTime v ! curIdx w < remainTime v ! j)))
    \<and> (\<not> isCheck w \<longrightarrow>
         (\<forall>j. \<not> eligible ps v j) \<and> sjf_iter ps v = v\<lparr>tNow := tNow v + 1\<rparr>)"
proof -
  have inv: "sjf_inv ps (sjf_at ps k)"
    using assms by (rule sjf_at_inv)
  show ?thesis
    unfolding Let_def
  proof (intro conjI impI)
    assume "isCheck (sjf_scan ps (sjf_at ps k))"
    then show "eligible ps (sjf_at ps k) (curIdx (sjf_scan ps (sjf_at ps k)))"
      using inv by (rule scan_selected(1) [rotated])
  next
    assume "isCheck (sjf_scan ps (sjf_at ps k))"
    then show "\<forall>j. eligible ps (sjf_at ps k) j \<longrightarrow>
        remainTime (sjf_at ps k) ! curIdx (sjf_scan ps (sjf_at ps k)) \<le> remainTime (sjf_at ps k) ! j"
      using scan_selected(2) [OF inv] by blast
  next
    assume "isCheck (sjf_scan ps (sjf_at ps k))"
    then show "if isCheck (sjf_at ps k) \<and>
          (\<forall>j. eligible ps (sjf_at ps k) j \<longrightarrow>
             remainTime (sjf_at ps k) ! curIdx (sjf_at ps k) \<le> remainTime (sjf_at ps k) ! j)
       then curIdx (sjf_scan ps (sjf_at ps k)) = curIdx (sjf_at ps k)
       else \<forall>j<curIdx (sjf_scan ps (sjf_at ps k)). eligible ps (sjf_at ps k) j \<longrightarrow>
              remainTime (sjf_at ps k) ! curIdx (sjf_scan ps (sjf_at ps k))
                < remainTime (sjf_at ps k) ! j"
      using inv by (rule scan_ties [rotated])
  next
    assume "\<not> isCheck (sjf_scan ps (sjf_at ps k))"
    then show "\<forall>j. \<not> eligible ps (sjf_at ps k) j"
      using scan_idle(2) [OF inv] by blast
  next
    assume a: "\<not> isCheck (sjf_scan ps (sjf_at ps k))"
    then have "sjf_scan ps (sjf_at ps k) = sjf_at ps k"
      using inv by (rule scan_idle(1) [rotated])
    then show "sjf_iter ps (sjf_at ps k) = (sjf_at ps k)\<lparr>tNow := tNow (sjf_at ps k) + 1\<rparr>"
      using a by (simp add: sjf_iter_def Let_def)
  qed
qed

text \<open>
  Claim C4 as stated fails on ties.  With \<open>P1(burst 2, arrival 1), P2(burst 3, arrival 0)\<close>
  both processes are eligible at tick 1 with remaining time 2; the process selected is
  \<open>P2\<close> at index 1, which ran at tick 0, and not \<open>P1\<close> at the lowest index.
\<close>

theorem C4_tie_keeps_running_process:
  "eligible [proc 1 2 1 0, proc 2 3 0 0] (sjf_at [proc 1 2 1 0, proc 2 3 0 0] 1) 0
   \<and> eligible [proc 1 2 1 0, proc 2 3 0 0] (sjf_at [proc 1 2 1 0, proc 2 3 0 0] 1) 1
   \<and> remainTime (sjf_at [proc 1 2 1 0, proc 2 3 0 0] 1) ! 0
       = remainTime (sjf_at [proc 1 2 1 0, proc 2 3 0 0] 1) ! 1
   \<and> isCheck (sjf_scan [proc 1 2 1 0, proc 2 3 0 0] (sjf_at [proc 1 2 1 0, proc 2 3 0 0] 1))
   \<and> curIdx (sjf_scan [proc 1 2 1 0, proc 2 3 0 0] (sjf_at [proc 1 2 1 0, proc 2 3 0 0] 1)) = 1"
  by code_simp

theorem C4_srtf_selection_witness:
  "isCheck (sjf_scan [proc 1 2 1 0, proc 2 3 0 0] (sjf_at [proc 1 2 1 0, proc 2 3 0 0] 1))
   \<and> eligible [proc 1 2 1 0, proc 2 3 0 0] (sjf_at [proc 1 2 1 0, proc 2 3 0 0] 1)
       (curIdx (sjf_scan [proc 1 2 1 0, proc 2 3 0 0] (sjf_at [proc 1 2 1 0, proc 2 3 0 0] 1)))
   \<and> curIdx (sjf_scan [proc 1 2 1 0, proc 2 3 0 0] (sjf_at [proc 1 2 1 0, proc 2 3 0 0] 1))
       = curIdx (sjf_at [proc 1 2 1 0, proc 2 3 0 0] 1)"
proof -
  have h: "\<forall>p\<in>set [proc 1 2 1 0, proc 2 3 0 0]. BurstDuration p < MaxInt64"
    by (simp add: proc_def MaxInt64_def)
  have c: "isCheck (sjf_scan [proc 1 2 1 0, proc 2 3 0 0] (sjf_at [proc 1 2 1 0, proc 2 3 0 0] 1))"
    by code_simp
  have e: "curIdx (sjf_scan [proc 1 2 1 0, proc 2 3 0 0] (sjf_at [proc 1 2 1 0, proc 2 3 0 0] 1))
       = curIdx (sjf_at [proc 1 2 1 0, proc 2 3 0 0] 1)"
    by code_simp
  show ?thesis
    using C4_srtf_selection [OF h, of 1] c e by (simp add: Let_def)
qed

section \<open>The heap keeps its elements\<close>

lemma length_Swap: "length (Swap h i j) = length h"
  by (simp add: Swap_def)

lemma mset_Swap: "i < length h \<Longrightarrow> j < length h \<Longrightarrow> mset (Swap h i j) = mset h"
  unfolding Swap_def by (rule mset_swap)

lemma length_up: "length (up h j) = length h"
proof (induction h j rule: up.induct)
  case (1 h j)
  show ?case
  proof (cases "(j - 1) div 2 = j \<or> \<not> Less h j ((j - 1) div 2)")
    case True
    then show ?thesis by (subst up.simps) simp
  next
    case False
    then show ?thesis
      using "1.IH" by (subst up.simps) (simp add: length_Swap)
  qed
qed

lemma mset_up: "j < length h \<Longrightarrow> mset (up h j) = mset h"
proof (induction h j rule: up.induct)
  case (1 h j)
  show ?case
  proof (cases "(j - 1) div 2 = j \<or> \<not> Less h j ((j - 1) div 2)")
    case True
    then show ?thesis by (subst up.simps) simp
  next
    case False
    have lt: "(j - 1) div 2 < length h"
      using "1.prems" by simp
    have "mset (up (Swap h ((j - 1) div 2) j) ((j - 1) div 2))
            = mset (Swap h ((j - 1) div 2) j)"
      using False lt by (intro "1.IH") (simp_all add: length_Swap)
    also have "\<dots> = mset h"
      using lt "1.prems" by (rule mset_Swap)
    finally show ?thesis
      using False by (subst up.simps) simp
  qed
qed

lemma down_child_bounds: "2 * i + 1 < n \<Longrightarrow> i < down_child h i n \<and> down_child h i n < n"
  by (simp add: down_child_def)

lemma length_down: "length (down h i n) = length h"
proof (induction h i n rule: down.induct)
  case (1 h i n)
  show ?case
  proof (cases "2 * i + 1 \<ge> n \<or> \<not> Less h (down_child h i n) i")
    case True
    then show ?thesis by (subst down.simps) auto
  next
    case False
    then have "length (down (Swap h i (down_child h i n)) (down_child h i n) n)
                 = length (Swap h i (down_child h i n))"
      using "1.IH" by (simp add: down_child_def)
    then show ?thesis
      using False by (subst down.simps) (simp add: length_Swap)
  qed
qed

lemma mset_down: "n \<le> length h \<Longrightarrow> mset (down h i n) = mset h"
proof (induction h i n rule: down.induct)
  case (1 h i n)
  show ?case
  proof (cases "2 * i + 1 \<ge> n \<or> \<not> Less h (down_child h i n) i")
    case True
    then show ?thesis by (subst down.simps) auto
  next
    case False
    then have b: "i < down_child h i n" "down_child h i n < n"
      using down_child_bounds [of i n h] by simp_all
    have "mset (down (Swap h i (down_child h i n)) (down_child h i n) n)
            = mset (Swap h i (down_child h i n))"
      using False "1.prems" "1.IH" by (simp add: down_child_def length_Swap)
    also have "\<dots> = mset h"
      using b "1.prems" by (intro mset_Swap) simp_all
    finally show ?thesis
      using False by (subst down.simps) simp
  qed
qed

lemma mset_heap_Push: "mset (heap_Push h x) = add_mset x (mset h)"
  by (simp add: heap_Push_def mset_up)

lemma length_heap_Push: "length (heap_Push h x) = Suc (length h)"
  by (simp add: heap_Push_def length_up)

lemma heap_Pop_empty: "heap_Pop h = Inl e \<longleftrightarrow> h = []"
  by (cases e) (simp add: heap_Pop_def Let_def)

lemma heap_Pop_mset:
  assumes "heap_Pop h = Inr (p, h')"
  shows "mset h = add_mset p (mset h')"
proof -
  have ne: "h \<noteq> []"
    using assms by (auto simp: heap_Pop_def)
  define n where "n = length h - 1"
  define h1 where "h1 = down (Swap h 0 n) 0 n"
  have len: "length h1 = Suc n"
    using ne by (simp add: h1_def n_def length_down length_Swap)
  have ms: "mset h1 = mset h"
    using ne unfolding h1_def
    by (simp add: mset_down length_Swap n_def mset_Swap)
  have p: "p = h1 ! n" and h': "h' = take n h1"
    using assms ne by (auto simp: heap_Pop_def Let_def h1_def n_def length_down length_Swap)
  have "h1 = take n h1 @ [h1 ! n]"
    using len by (metis lessI take_Suc_conv_app_nth take_all order_refl)
  then have "mset h1 = add_mset (h1 ! n) (mset (take n h1))"
    by (metis mset.simps(2) mset_append union_mset_add_mset_right add.right_neutral mset.simps(1))
  then show ?thesis
    using ms p h' by simp
qed

section \<open>Arrivals and the counter \<open>insertedProcess\<close>\<close>

lemma push_body_fields:
  "currentTime (prio_push_body v p) = currentTime v"
  "ganttP (prio_push_body v p) = ganttP v"
  "turnAroundTimes (prio_push_body v p) = turnAroundTimes v"
  "waitingTimesP (prio_push_body v p) = waitingTimesP v"
  by (simp_all add: prio_push_body_def)

lemma push_fold_fields:
  "currentTime (foldl prio_push_body v ps) = currentTime v"
  "ganttP (foldl prio_push_body v ps) = ganttP v"
  "turnAroundTimes (foldl prio_push_body v ps) = turnAroundTimes v"
  "waitingTimesP (foldl prio_push_body v ps) = waitingTimesP v"
  by (induction ps arbitrary: v) (simp_all add: push_body_fields)

lemma push_fold_inserted:
  "insertedProcess (foldl prio_push_body v ps)
     = insertedProcess v + length (filter (\<lambda>p. ArrivalTime p = currentTime v) ps)"
proof (induction ps arbitrary: v)
  case Nil
  show ?case by simp
next
  case (Cons p ps)
  show ?case
    by (simp add: Cons.IH push_body_fields) (simp add: prio_push_body_def)
qed

lemma push_fold_heap:
  "mset (minHeap (foldl prio_push_body v ps))
     = mset (minHeap v) + mset (filter (\<lambda>p. ArrivalTime p = currentTime v) ps)"
proof (induction ps arbitrary: v)
  case Nil
  show ?case by simp
next
  case (Cons p ps)
  show ?case
    by (simp add: Cons.IH push_body_fields) (simp add: prio_push_body_def mset_heap_Push)
qed

lemma filter_all_length:
  assumes "length (filter P xs) = length xs" and "x \<in> set xs"
  shows "P x"
  using assms length_filter_less [of x xs P] by auto

lemma pushed_Suc:
  "t0 \<le> t \<Longrightarrow> pushed t0 (t + 1) = (\<lambda>p. pushed t0 t p \<or> ArrivalTime p = t)"
  by (auto simp: pushed_def fun_eq_iff)

lemma length_filter_disj:
  "(\<And>x. x \<in> set xs \<Longrightarrow> \<not> (P x \<and> Q x))
     \<Longrightarrow> length (filter (\<lambda>x. P x \<or> Q x) xs) = length (filter P xs) + length (filter Q xs)"
  by (induction xs) auto

lemma sum_filter_disj:
  "(\<And>x. x \<in> set xs \<Longrightarrow> \<not> (P x \<and> Q x))
     \<Longrightarrow> sum_list (map f (filter (\<lambda>x. P x \<or> Q x) xs))
         = sum_list (map f (filter P xs)) + (sum_list (map f (filter Q xs)) :: int)"
  by (induction xs) auto

lemma count_no_arrival:
  assumes "prio_count qs t0 v" and "\<not> insertedProcess v < length qs"
  shows "filter (\<lambda>p. ArrivalTime p = currentTime v) qs = []"
proof -
  have "length (filter (pushed t0 (currentTime v)) qs) = length qs"
    using assms length_filter_le [of "pushed t0 (currentTime v)" qs]
    by (simp add: prio_count_def)
  then have "p \<in> set qs \<Longrightarrow> pushed t0 (currentTime v) p" for p
    by (rule filter_all_length)
  then have "\<forall>p\<in>set qs. ArrivalTime p < currentTime v"
    by (simp add: pushed_def)
  then show ?thesis
    by (auto simp: filter_empty_conv)
qed

lemma push_arrivals_fields:
  "currentTime (prio_push_arrivals qs v) = currentTime v"
  "ganttP (prio_push_arrivals qs v) = ganttP v"
  "turnAroundTimes (prio_push_arrivals qs v) = turnAroundTimes v"
  "waitingTimesP (prio_push_arrivals qs v) = waitingTimesP v"
  by (simp_all add: prio_push_arrivals_def push_fold_fields)

lemma push_arrivals_inserted:
  assumes "prio_count qs t0 v"
  shows "insertedProcess (prio_push_arrivals qs v)
     = insertedProcess v + length (filter (\<lambda>p. ArrivalTime p = currentTime v) qs)"
proof (cases "insertedProcess v < length qs")
  case True
  then show ?thesis
    by (simp add: prio_push_arrivals_def push_fold_inserted)
next
  case False
  then have "filter (\<lambda>p. ArrivalTime p = currentTime v) qs = []"
    using assms by (rule count_no_arrival [rotated])
  with False show ?thesis
    by (simp only: prio_push_arrivals_def if_False list.size add_0_right)
qed

lemma push_arrivals_heap:
  assumes "prio_count qs t0 v"
  shows "mset (minHeap (prio_push_arrivals qs v))
     = mset (minHeap v) + mset (filter (\<lambda>p. ArrivalTime p = currentTime v) qs)"
proof (cases "insertedProcess v < length qs")
  case True
  then show ?thesis
    by (simp add: prio_push_arrivals_def push_fold_heap)
next
  case False
  then have "filter (\<lambda>p. ArrivalTime p = currentTime v) qs = []"
    using assms by (rule count_no_arrival [rotated])
  with False show ?thesis
    by (simp only: prio_push_arrivals_def if_False mset.simps add_0_right)
qed

lemma push_arrivals_count:
  assumes "prio_count qs t0 v"
  shows "insertedProcess (prio_push_arrivals qs v)
           = length (filter (pushed t0 (currentTime v + 1)) qs)"
proof -
  have t: "t0 \<le> currentTime v"
    using assms by (simp add: prio_count_def)
  have "length (filter (pushed t0 (currentTime v + 1)) qs)
          = length (filter (\<lambda>p. pushed t0 (currentTime v) p \<or> ArrivalTime p = currentTime v) qs)"
    using t by (simp add: pushed_Suc)
  also have "\<dots> = length (filter (pushed t0 (currentTime v)) qs)
                   + length (filter (\<lambda>p. ArrivalTime p = currentTime v) qs)"
    by (rule length_filter_disj) (simp add: pushed_def)
  finally show ?thesis
    using assms by (simp add: push_arrivals_inserted [OF assms] prio_count_def)
qed

lemma prio_finish_fields:
  "currentTime (prio_finish m tb p v) = currentTime v"
  "ganttP (prio_finish m tb p v) = ganttP v"
  "insertedProcess (prio_finish m tb p v) = insertedProcess v"
  "minHeap (prio_finish m tb p v) = minHeap v"
  by (simp_all add: prio_finish_def Let_def)

lemma prio_run_fields:
  "currentTime (prio_run m tb p v) = currentTime v + 1"
  "insertedProcess (prio_run m tb p v) = insertedProcess v"
  "ganttP (prio_run m tb p v)
     = setStop (appendGantt (ganttP v) (p\<lparr>BurstDuration := BurstDuration p - 1\<rparr>) (currentTime v))
         (currentTime v + 1)"
  by (simp_all add: prio_run_def Let_def prio_finish_fields)

lemma prio_iter_Inr:
  assumes "prio_iter qs m tb v = Inr fl"
  obtains p h where
    "heap_Pop (minHeap (prio_push_arrivals qs v)) = Inr (p, h)"
    "flow_val fl = prio_run m tb p ((prio_push_arrivals qs v)\<lparr>minHeap := h\<rparr>)"
    "(\<exists>x. fl = Break x) \<longleftrightarrow>
       (minHeap (flow_val fl) = [] \<and> insertedProcess (flow_val fl) = length qs)"
  using assms
  by (auto simp: prio_iter_def Let_def split: sum.splits prod.splits if_splits)

lemma prio_iter_count:
  assumes "prio_iter qs m tb v = Inr fl" and "prio_count qs t0 v"
  shows "prio_count qs t0 (flow_val fl)"
proof -
  obtain p h where
    fv: "flow_val fl = prio_run m tb p ((prio_push_arrivals qs v)\<lparr>minHeap := h\<rparr>)"
    using assms(1) by (rule prio_iter_Inr)
  have "t0 \<le> currentTime v"
    using assms(2) by (simp add: prio_count_def)
  then show ?thesis
    using push_arrivals_count [OF assms(2)]
    by (simp add: prio_count_def fv prio_run_fields push_arrivals_fields)
qed

lemma prio_init_count: "prio_count qs t0 (prio_init t0 n)"
  by (simp add: prio_count_def prio_init_def pushed_def)

section \<open>Timelines built tick by tick\<close>

lemma gantt_chain_snoc:
  "g \<noteq> [] \<Longrightarrow>
   gantt_chain a (g @ [s]) b \<longleftrightarrow>
     gantt_chain a g (Start s) \<and> PID (last g) \<noteq> PID s \<and> Start s < Stop s \<and> Stop s = b"
proof (induction g arbitrary: a)
  case Nil
  then show ?case by simp
next
  case (Cons x g)
  show ?case
  proof (cases g)
    case Nil
    then show ?thesis by auto
  next
    case (Cons y g')
    then have "g \<noteq> []" by simp
    from Cons.IH [OF this, of "Stop x"] Cons show ?thesis by auto
  qed
qed

lemma gantt_chain_last:
  "gantt_chain a g b \<Longrightarrow> g \<noteq> [] \<Longrightarrow> Stop (last g) = b \<and> Start (last g) < b"
proof (induction a g b rule: gantt_chain.induct)
  case (1 a b)
  then show ?case by simp
next
  case (2 a s b)
  then show ?case by simp
next
  case (3 a s s' g b)
  then show ?case by simp
qed


lemma gantt_chain_le: "gantt_chain a g b \<Longrightarrow> a \<le> b"
  by (induction a g b rule: gantt_chain.induct) auto

lemma gantt_chain_extend:
  assumes "gantt_chain a (g @ [s]) b" and "b < b'"
  shows "gantt_chain a (g @ [s\<lparr>Stop := b'\<rparr>]) b'"
proof (cases "g = []")
  case True
  then show ?thesis using assms by simp
next
  case False
  then show ?thesis
    using assms by (simp add: gantt_chain_snoc)
qed

lemma setStop_snoc: "setStop (g @ [s]) b = g @ [s\<lparr>Stop := b\<rparr>]"
  by (simp add: setStop_def)

lemma gantt_step:
  assumes "gantt_chain t0 g t"
  shows "gantt_chain t0 (setStop (appendGantt g p t) (t + 1)) (t + 1)"
proof (cases g rule: rev_cases)
  case Nil
  then show ?thesis
    using assms by (simp add: appendGantt_def setStop_def)
next
  case (snoc g0 l)
  then have l: "Stop l = t"
    using gantt_chain_last [OF assms] by simp
  show ?thesis
  proof (cases "PID l = ProcessID p")
    case True
    then have "appendGantt g p t = g0 @ [l]"
      using snoc by (simp add: appendGantt_def)
    then have "setStop (appendGantt g p t) (t + 1) = g0 @ [l\<lparr>Stop := t + 1\<rparr>]"
      by (simp only: setStop_snoc)
    then show ?thesis
      using assms snoc gantt_chain_extend [of t0 g0 l t "t + 1"] by simp
  next
    case False
    then have "appendGantt g p t = g @ [\<lparr>PID = ProcessID p, Start = t, Stop = 0\<rparr>]"
      using snoc by (simp add: appendGantt_def)
    then have eq: "setStop (appendGantt g p t) (t + 1)
                 = g @ [\<lparr>PID = ProcessID p, Start = t, Stop = t + 1\<rparr>]"
      by (simp add: setStop_snoc)
    have lg: "g \<noteq> []" "last g = l"
      using snoc by simp_all
    have "gantt_chain t0 (g @ [\<lparr>PID = ProcessID p, Start = t, Stop = t + 1\<rparr>]) (t + 1)"
      unfolding gantt_chain_snoc [OF lg(1)] using assms False lg(2) by simp
    then show ?thesis
      by (simp only: eq)
  qed
qed

lemma gantt_chain_total: "gantt_chain a g b \<Longrightarrow> timeline_total g = b - a"
  by (induction a g b rule: gantt_chain.induct) (auto simp: timeline_total_def)





section \<open>The statistics written by the priority loop\<close>

lemma mapIdx_prefix:
  assumes "distinct (map ProcessID qs)"
  shows "m \<le> length qs \<Longrightarrow> i < m \<Longrightarrow>
     foldl (\<lambda>mp i. mp(ProcessID (qs ! i) \<mapsto> i)) Map.empty [0..<m] (ProcessID (qs ! i)) = Some i"
proof (induction m)
  case 0
  then show ?case by simp
next
  case (Suc m)
  show ?case
  proof (cases "i = m")
    case True
    then show ?thesis by simp
  next
    case False
    then have i: "i < m" using Suc.prems by simp
    have "map ProcessID qs ! i \<noteq> map ProcessID qs ! m"
      using assms i Suc.prems by (simp add: nth_eq_iff_index_eq del: nth_map)
    then have "ProcessID (qs ! i) \<noteq> ProcessID (qs ! m)"
      using i Suc.prems by simp
    then show ?thesis
      using Suc.IH i Suc.prems by simp
  qed
qed

lemma mapGet_idx:
  "distinct (map ProcessID qs) \<Longrightarrow> i < length qs \<Longrightarrow>
     mapGet (processesMapIdx qs) (ProcessID (qs ! i)) = i"
  using mapIdx_prefix [of qs "length qs" i]
  by (simp add: mapGet_def processesMapIdx_def)

lemma distinct_ids_eq:
  "distinct (map ProcessID qs) \<Longrightarrow> i < length qs \<Longrightarrow> j < length qs \<Longrightarrow>
     ProcessID (qs ! i) = ProcessID (qs ! j) \<Longrightarrow> i = j"
  using nth_eq_iff_index_eq [of "map ProcessID qs" i j] by simp

lemma tracked_mono: "tracked qs t0 t h \<Longrightarrow> tracked qs t0 (t + 1) h"
  unfolding tracked_def by (elim exE conjE, rule_tac x = i in exI) simp

lemma tracked_new:
  assumes "q \<in> set qs" and "ArrivalTime q = t" and "t0 \<le> t"
  shows "tracked qs t0 t q"
proof -
  obtain i where "i < length qs" "qs ! i = q"
    using assms(1) by (auto simp: in_set_conv_nth)
  then show ?thesis
    unfolding tracked_def using assms by (intro exI [of _ i]) simp
qed

lemma tracked_dec:
  "tracked qs t0 t h \<Longrightarrow> tracked qs t0 (t + 1) (h\<lparr>BurstDuration := BurstDuration h - 1\<rparr>)"
  unfolding tracked_def by (elim exE conjE, rule_tac x = i in exI) simp

lemma prio_run_continue:
  assumes "BurstDuration p - 1 > 0"
  shows "minHeap (prio_run m tb p v)
           = heap_Push (minHeap v) (p\<lparr>BurstDuration := BurstDuration p - 1\<rparr>)"
    and "turnAroundTimes (prio_run m tb p v) = turnAroundTimes v"
    and "waitingTimesP (prio_run m tb p v) = waitingTimesP v"
  using assms by (simp_all add: prio_run_def Let_def)

lemma prio_run_finish:
  assumes "\<not> BurstDuration p - 1 > 0"
  shows "minHeap (prio_run m tb p v) = minHeap v"
    and "turnAroundTimes (prio_run m tb p v)
           = (turnAroundTimes v)[mapGet m (ProcessID p) := currentTime v + 1 - ArrivalTime p]"
    and "waitingTimesP (prio_run m tb p v)
           = (waitingTimesP v)[mapGet m (ProcessID p) :=
                (turnAroundTimes v)[mapGet m (ProcessID p) := currentTime v + 1 - ArrivalTime p]
                  ! mapGet m (ProcessID p) - tb ! mapGet m (ProcessID p)]"
  using assms by (simp_all add: prio_run_def prio_finish_def Let_def)

lemma prio_iter_stats:
  assumes it: "prio_iter qs (processesMapIdx qs) (map BurstDuration qs) v = Inr fl"
    and cnt: "prio_count qs t0 v"
    and inv: "prio_stats qs t0 v"
    and dist: "distinct (map ProcessID qs)"
  shows "prio_stats qs t0 (flow_val fl)"
proof -
  define v1 where "v1 = prio_push_arrivals qs v"
  define t where "t = currentTime v"
  define n where "n = length qs"
  obtain p h where
    pop: "heap_Pop (minHeap v1) = Inr (p, h)" and
    fv: "flow_val fl = prio_run (processesMapIdx qs) (map BurstDuration qs) p (v1\<lparr>minHeap := h\<rparr>)"
    using it unfolding v1_def by (rule prio_iter_Inr)
  define v' where "v' = flow_val fl"
  have t0: "t0 \<le> t"
    using cnt by (simp add: prio_count_def t_def)
  have len: "length (turnAroundTimes v) = n" "length (waitingTimesP v) = n"
    using inv by (simp_all add: prio_stats_def n_def)
  have heap1: "set (minHeap v1) = set (minHeap v) \<union> {q \<in> set qs. ArrivalTime q = t}"
    using push_arrivals_heap [OF cnt, THEN arg_cong, of set_mset]
    by (auto simp: v1_def t_def)
  have split: "set (minHeap v1) = insert p (set h)"
    using heap_Pop_mset [OF pop, THEN arg_cong, of set_mset] by simp
  have S1: "tracked qs t0 t x" if "x \<in> set (minHeap v1)" for x
    using that inv t0 unfolding heap1
    by (auto simp: prio_stats_def t_def [symmetric] intro: tracked_new)
  have R1: "row_done qs v i \<or> (\<exists>x\<in>set (minHeap v1). ProcessID x = ProcessID (qs ! i))"
    if "i < n" "pushed t0 (t + 1) (qs ! i)" for i
  proof (cases "ArrivalTime (qs ! i) = t")
    case True
    then have "qs ! i \<in> set (minHeap v1)"
      using that(1) unfolding heap1 by (simp add: n_def)
    then show ?thesis by blast
  next
    case False
    then have "pushed t0 t (qs ! i)"
      using that(2) by (simp add: pushed_def)
    then have "row_done qs v i \<or> (\<exists>x\<in>set (minHeap v). ProcessID x = ProcessID (qs ! i))"
      using inv that(1) by (simp add: prio_stats_def t_def n_def)
    then show ?thesis
      unfolding heap1 by blast
  qed
  have time: "currentTime v' = t + 1"
    by (simp add: v'_def fv prio_run_fields v1_def push_arrivals_fields t_def)
  have ptr: "tracked qs t0 t p"
    using S1 split by simp
  show ?thesis
  proof (cases "BurstDuration p - 1 > 0")
    case True
    have heap': "set (minHeap v') = insert (p\<lparr>BurstDuration := BurstDuration p - 1\<rparr>) (set h)"
      using mset_heap_Push [of h "p\<lparr>BurstDuration := BurstDuration p - 1\<rparr>", THEN arg_cong, of set_mset]
      by (simp add: v'_def fv prio_run_continue [OF True])
    have same: "turnAroundTimes v' = turnAroundTimes v" "waitingTimesP v' = waitingTimesP v"
      by (simp_all add: v'_def fv prio_run_continue [OF True] v1_def push_arrivals_fields)
    have A: "tracked qs t0 (t + 1) x" if "x \<in> set (minHeap v')" for x
      using that S1 split ptr unfolding heap'
      by (auto intro: tracked_mono tracked_dec)
    have B: "row_done qs v' i \<or> (\<exists>x\<in>set (minHeap v'). ProcessID x = ProcessID (qs ! i))"
      if "i < n" "pushed t0 (t + 1) (qs ! i)" for i
    proof -
      from R1 [OF that] show ?thesis
      proof
        assume "row_done qs v i"
        then show ?thesis by (simp add: row_done_def same)
      next
        assume "\<exists>x\<in>set (minHeap v1). ProcessID x = ProcessID (qs ! i)"
        then obtain x where x: "x \<in> set (minHeap v1)" "ProcessID x = ProcessID (qs ! i)"
          by blast
        show ?thesis
        proof (cases "x = p")
          case True
          then have "ProcessID (p\<lparr>BurstDuration := BurstDuration p - 1\<rparr>) = ProcessID (qs ! i)"
            using x by simp
          then show ?thesis unfolding heap' by blast
        next
          case False
          then have "x \<in> set h" using x split by simp
          then show ?thesis using x unfolding heap' by blast
        qed
      qed
    qed
    show ?thesis
      unfolding prio_stats_def v'_def [symmetric] time
      using A B len same by (simp add: n_def)
  next
    case False
    obtain ip where ip: "ip < n" "ProcessID p = ProcessID (qs ! ip)"
      "ArrivalTime p = ArrivalTime (qs ! ip)"
      "BurstDuration (qs ! ip) - BurstDuration p \<le> t - ArrivalTime p"
      using ptr by (auto simp: tracked_def n_def)
    have idx: "mapGet (processesMapIdx qs) (ProcessID p) = ip"
      using mapGet_idx [OF dist, of ip] ip by (simp add: n_def)
    have heap': "minHeap v' = h"
      by (simp add: v'_def fv prio_run_finish [OF False])
    have ta: "turnAroundTimes v' = (turnAroundTimes v)[ip := t + 1 - ArrivalTime p]"
      by (simp add: v'_def fv prio_run_finish [OF False] idx v1_def push_arrivals_fields t_def)
    have w: "waitingTimesP v'
               = (waitingTimesP v)[ip := t + 1 - ArrivalTime p - BurstDuration (qs ! ip)]"
      using ip(1) len
      by (simp add: v'_def fv prio_run_finish [OF False] idx v1_def push_arrivals_fields t_def n_def)
    have done_ip: "row_done qs v' ip"
      using ip len False by (simp add: row_done_def ta w)
    have keep: "row_done qs v' i" if "row_done qs v i" "i \<noteq> ip" for i
      using that by (simp add: row_done_def ta w)
    have A: "tracked qs t0 (t + 1) x" if "x \<in> set (minHeap v')" for x
      using that S1 split unfolding heap' by (auto intro: tracked_mono)
    have B: "row_done qs v' i \<or> (\<exists>x\<in>set (minHeap v'). ProcessID x = ProcessID (qs ! i))"
      if "i < n" "pushed t0 (t + 1) (qs ! i)" for i
    proof (cases "i = ip")
      case True
      then show ?thesis using done_ip by simp
    next
      case ne: False
      from R1 [OF that] show ?thesis
      proof
        assume "row_done qs v i"
        then show ?thesis using keep ne by simp
      next
        assume "\<exists>x\<in>set (minHeap v1). ProcessID x = ProcessID (qs ! i)"
        then obtain x where x: "x \<in> set (minHeap v1)" "ProcessID x = ProcessID (qs ! i)"
          by blast
        have "x \<noteq> p"
        proof
          assume "x = p"
          then have "ProcessID (qs ! i) = ProcessID (qs ! ip)"
            using x ip by simp
          then have "i = ip"
            using distinct_ids_eq [OF dist, of i ip] that(1) ip(1) by (simp add: n_def)
          then show False using ne by simp
        qed
        then have "x \<in> set h" using x split by simp
        then show ?thesis using x unfolding heap' by blast
      qed
    qed
    show ?thesis
      unfolding prio_stats_def v'_def [symmetric] time
      using A B len by (simp add: n_def ta w)
  qed
qed

lemma prio_init_stats: "prio_stats qs t0 (prio_init t0 (length qs))"
  by (auto simp: prio_stats_def prio_init_def heap_Init_def pushed_def)

section \<open>The work done by the priority loop\<close>

lemma sum_list_mset_cong:
  "mset xs = mset ys \<Longrightarrow> sum_list (map f xs) = (sum_list (map f ys) :: int)"
  by (metis mset_map sum_mset_sum_list)

lemma sum_list_mset_add:
  assumes "mset xs = mset ys + mset zs"
  shows "sum_list (map f xs) = (sum_list (map f ys) + sum_list (map f zs) :: int)"
proof -
  have "mset xs = mset (ys @ zs)" using assms by simp
  then have "sum_list (map f xs) = sum_list (map f (ys @ zs))"
    by (rule sum_list_mset_cong)
  then show ?thesis by simp
qed

lemma sum_list_mset_insert:
  assumes "mset xs = add_mset p (mset ys)"
  shows "sum_list (map f xs) = (f p + sum_list (map f ys) :: int)"
proof -
  have "mset xs = mset (p # ys)" using assms by simp
  then have "sum_list (map f xs) = sum_list (map f (p # ys))"
    by (rule sum_list_mset_cong)
  then show ?thesis by simp
qed

lemma prio_iter_work:
  assumes it: "prio_iter qs m tb v = Inr fl"
    and cnt: "prio_count qs t0 v"
    and inv: "prio_work qs t0 v"
    and pos: "\<forall>q\<in>set qs. 1 \<le> BurstDuration q"
  shows "prio_work qs t0 (flow_val fl)"
proof -
  define v1 where "v1 = prio_push_arrivals qs v"
  define t where "t = currentTime v"
  obtain p h where
    pop: "heap_Pop (minHeap v1) = Inr (p, h)" and
    fv: "flow_val fl = prio_run m tb p (v1\<lparr>minHeap := h\<rparr>)"
    using it unfolding v1_def by (rule prio_iter_Inr)
  define v' where "v' = flow_val fl"
  define p' where "p' = p\<lparr>BurstDuration := BurstDuration p - 1\<rparr>"
  have t0: "t0 \<le> t"
    using cnt by (simp add: prio_count_def t_def)
  have m1: "mset (minHeap v1) = mset (minHeap v) + mset (filter (\<lambda>q. ArrivalTime q = t) qs)"
    using push_arrivals_heap [OF cnt] by (simp add: v1_def t_def)
  have m2: "mset (minHeap v1) = add_mset p (mset h)"
    using heap_Pop_mset [OF pop] .
  have pos1: "1 \<le> BurstDuration x" if "x \<in> set (minHeap v1)" for x
  proof -
    have "x \<in> set (minHeap v) \<or> x \<in> set qs"
      using that m1 [THEN arg_cong, of set_mset] by auto
    then show ?thesis
      using inv pos by (auto simp: prio_work_def)
  qed
  have mem: "set (minHeap v1) = insert p (set h)"
    using m2 [THEN arg_cong, of set_mset] by simp
  have time: "currentTime v' = t + 1"
    by (simp add: v'_def fv prio_run_fields v1_def push_arrivals_fields t_def)
  have "sum_list (map BurstDuration (filter (pushed t0 (t + 1)) qs))
          = sum_list (map BurstDuration
              (filter (\<lambda>q. pushed t0 t q \<or> ArrivalTime q = t) qs))"
    using t0 by (simp add: pushed_Suc)
  also have "\<dots> = sum_list (map BurstDuration (filter (pushed t0 t) qs))
                  + sum_list (map BurstDuration (filter (\<lambda>q. ArrivalTime q = t) qs))"
    by (rule sum_filter_disj) (simp add: pushed_def)
  also have "\<dots> = sum_list (map BurstDuration (minHeap v)) + (t - t0)
                  + sum_list (map BurstDuration (filter (\<lambda>q. ArrivalTime q = t) qs))"
    using inv by (simp add: prio_work_def t_def)
  also have "\<dots> = sum_list (map BurstDuration (minHeap v1)) + (t - t0)"
    using sum_list_mset_add [OF m1, of BurstDuration] by simp
  also have "\<dots> = BurstDuration p + sum_list (map BurstDuration h) + (t - t0)"
    using sum_list_mset_insert [OF m2, of BurstDuration] by simp
  finally have total: "sum_list (map BurstDuration (filter (pushed t0 (t + 1)) qs))
          = BurstDuration p + sum_list (map BurstDuration h) + (t - t0)" .
  have p1: "1 \<le> BurstDuration p"
    using pos1 mem by simp
  show ?thesis
  proof (cases "BurstDuration p - 1 > 0")
    case True
    have hp: "mset (minHeap v') = add_mset p' (mset h)"
      by (simp add: v'_def fv prio_run_continue [OF True] mset_heap_Push p'_def)
    have "sum_list (map BurstDuration (minHeap v')) = BurstDuration p - 1 + sum_list (map BurstDuration h)"
      using sum_list_mset_insert [OF hp, of BurstDuration] by (simp add: p'_def)
    moreover have "\<forall>x\<in>set (minHeap v'). 1 \<le> BurstDuration x"
      using hp [THEN arg_cong, of set_mset] pos1 mem True by (auto simp: p'_def)
    ultimately show ?thesis
      unfolding prio_work_def v'_def [symmetric] time using total by simp
  next
    case False
    have hp: "minHeap v' = h"
      by (simp add: v'_def fv prio_run_finish [OF False])
    have "BurstDuration p = 1"
      using False p1 by simp
    moreover have "\<forall>x\<in>set (minHeap v'). 1 \<le> BurstDuration x"
      using pos1 mem by (simp add: hp)
    ultimately show ?thesis
      unfolding prio_work_def v'_def [symmetric] time using total by (simp add: hp)
  qed
qed

lemma prio_init_work: "prio_work qs t0 (prio_init t0 n)"
  by (simp add: prio_work_def prio_init_def heap_Init_def pushed_def)

lemma prio_iter_gantt:
  assumes it: "prio_iter qs m tb v = Inr fl"
    and inv: "gantt_chain t0 (ganttP v) (currentTime v)"
  shows "gantt_chain t0 (ganttP (flow_val fl)) (currentTime (flow_val fl))"
proof -
  obtain p h where
    fv: "flow_val fl = prio_run m tb p ((prio_push_arrivals qs v)\<lparr>minHeap := h\<rparr>)"
    using it by (rule prio_iter_Inr)
  show ?thesis
    using gantt_step [OF inv]
    by (simp add: fv prio_run_fields push_arrivals_fields)
qed

lemma prio_iter_gantt_nonempty:
  assumes it: "prio_iter qs m tb v = Inr fl"
  shows "ganttP (flow_val fl) \<noteq> []"
proof -
  obtain p h where
    fv: "flow_val fl = prio_run m tb p ((prio_push_arrivals qs v)\<lparr>minHeap := h\<rparr>)"
    using it by (rule prio_iter_Inr)
  show ?thesis
    by (simp add: fv prio_run_fields setStop_def appendGantt_def)
qed

lemma prio_loop_invariant:
  assumes "prio_loop k qs m tb v = Some (Inr v')"
    and "I v"
    and step: "\<And>v fl. I v \<Longrightarrow> prio_iter qs m tb v = Inr fl \<Longrightarrow> I (flow_val fl)"
  shows "I v' \<and> minHeap v' = [] \<and> insertedProcess v' = length qs \<and> ganttP v' \<noteq> []"
  using assms(1,2)
proof (induction k arbitrary: v)
  case 0
  then show ?case by simp
next
  case (Suc k)
  show ?case
  proof (cases "prio_iter qs m tb v")
    case (Inl e)
    then show ?thesis using Suc.prems by simp
  next
    case (Inr fl)
    have I': "I (flow_val fl)"
      using step [OF Suc.prems(2) Inr] .
    show ?thesis
    proof (cases fl)
      case (Break x)
      then have x: "x = v'" using Suc.prems Inr by simp
      obtain p h where
        "(\<exists>y. fl = Break y) \<longleftrightarrow>
           (minHeap (flow_val fl) = [] \<and> insertedProcess (flow_val fl) = length qs)"
        using Inr by (rule prio_iter_Inr)
      then show ?thesis
        using I' Break x prio_iter_gantt_nonempty [OF Inr] by simp
    next
      case (Continue x)
      then have "prio_loop k qs m tb x = Some (Inr v')"
        using Suc.prems Inr by simp
      then show ?thesis
        using Suc.IH I' Continue by simp
    qed
  qed
qed

section \<open>Termination\<close>

text \<open>
  \<open>FCFSSchedule\<close> is a single pass over the processes.  The loop of \<open>SJFSchedule\<close> ends
  when every burst is positive and below the sentinel: each pass either executes one tick
  of work or moves the clock one tick towards the next arrival.
\<close>

lemma zeros_le: "zeros rs \<le> int (length rs)"
  by (induction rs) (simp_all add: zeros_def)

lemma zeros_full: "zeros rs = int (length rs) \<longleftrightarrow> (\<forall>r\<in>set rs. r = 0)"
proof (induction rs)
  case Nil
  show ?case by (simp add: zeros_def)
next
  case (Cons r rs)
  have "zeros (r # rs) = (if r = 0 then 1 else 0) + zeros rs"
    by (simp add: zeros_def)
  then show ?case
    using Cons zeros_le [of rs] by (auto split: if_splits)
qed

lemma sum_list_update_int:
  "c < length xs \<Longrightarrow> sum_list (xs[c := x]) = sum_list xs + x - (xs ! c :: int)"
proof (induction xs arbitrary: c)
  case Nil
  then show ?case by simp
next
  case (Cons a xs)
  then show ?case by (cases c) simp_all
qed

lemma zeros_update:
  assumes "c < length rs"
  shows "zeros (rs[c := x])
           = zeros rs + (if x = 0 then 1 else 0) - (if rs ! c = 0 then 1 else 0)"
proof -
  define f :: "int \<Rightarrow> int" where "f = (\<lambda>r. if r = 0 then 1 else 0)"
  have "map f (rs[c := x]) = (map f rs)[c := f x]"
    by (rule map_update)
  moreover have "sum_list ((map f rs)[c := f x]) = sum_list (map f rs) + f x - map f rs ! c"
    using assms by (intro sum_list_update_int) simp
  ultimately have "sum_list (map f (rs[c := x])) = sum_list (map f rs) + f x - f (rs ! c)"
    using assms by simp
  then show ?thesis
    unfolding zeros_def f_def .
qed

lemma sum_nonneg_zero:
  "(\<forall>r\<in>set rs. (0::int) \<le> r) \<Longrightarrow> sum_list rs \<le> 0 \<Longrightarrow> (\<forall>r\<in>set rs. r = 0)"
proof (induction rs)
  case Nil
  then show ?case by simp
next
  case (Cons r rs)
  have "0 \<le> sum_list rs"
    using Cons.prems(1) by (intro sum_list_nonneg) simp
  then show ?case
    using Cons by auto
qed

lemma sjf_iter_idle:
  assumes "sjf_inv ps v" and "\<not> isCheck (sjf_scan ps v)"
  shows "sjf_iter ps v = v\<lparr>tNow := tNow v + 1\<rparr>"
proof -
  have "sjf_scan ps v = v"
    using assms by (rule scan_idle(1))
  then show ?thesis
    using assms(2) by (simp add: sjf_iter_def Let_def)
qed

lemma sjf_iter_run:
  assumes inv: "sjf_inv ps v" and chk: "isCheck (sjf_scan ps v)"
  obtains c where "c < length ps" and "0 < remainTime v ! c"
    and "remainTime (sjf_iter ps v) = (remainTime v)[c := remainTime v ! c - 1]"
    and "tNow (sjf_iter ps v) = tNow v + 1"
    and "numsOfCompletion (sjf_iter ps v)
           = (if remainTime v ! c - 1 = 0 then numsOfCompletion v + 1 else numsOfCompletion v)"
proof -
  define w where "w = sjf_scan ps v"
  have it: "sjf_iter ps v = sjf_run ps w"
    using chk by (simp add: sjf_iter_def Let_def w_def)
  have el: "eligible ps v (curIdx w)"
    using scan_selected(1) [OF inv chk] by (simp add: w_def)
  have rw: "remainTime w = remainTime v" "tNow w = tNow v"
    "numsOfCompletion w = numsOfCompletion v"
    by (simp_all add: w_def scan_fields)
  have len: "length (remainTime v) = length ps"
    using inv by (simp add: sjf_inv_def)
  have c: "curIdx w < length (remainTime v)"
    using el len by (simp add: eligible_def)
  have n: "numsOfCompletion (sjf_run ps w)
      = (if remainTime v ! curIdx w - 1 = 0 then numsOfCompletion v + 1 else numsOfCompletion v)"
    using c rw by (simp add: sjf_run_def sjf_complete_def Let_def)
  show ?thesis
  proof (rule that [of "curIdx w"])
    show "curIdx w < length ps" "0 < remainTime v ! curIdx w"
      using el by (simp_all add: eligible_def)
    show "remainTime (sjf_iter ps v) = (remainTime v)[curIdx w := remainTime v ! curIdx w - 1]"
      by (simp add: it sjf_run_fields rw)
    show "tNow (sjf_iter ps v) = tNow v + 1"
      by (simp add: it sjf_run_fields rw)
    show "numsOfCompletion (sjf_iter ps v)
      = (if remainTime v ! curIdx w - 1 = 0 then numsOfCompletion v + 1 else numsOfCompletion v)"
      by (simp only: it n)
  qed
qed

lemma sjf_iter_progress:
  assumes "sjf_progress ps v"
  shows "sjf_progress ps (sjf_iter ps v)"
proof -
  have inv: "sjf_inv ps v" and nn: "\<forall>i<length ps. 0 \<le> remainTime v ! i"
    and cnt: "int (numsOfCompletion v) = zeros (remainTime v)"
    using assms by (simp_all add: sjf_progress_def)
  have inv': "sjf_inv ps (sjf_iter ps v)"
    using inv by (rule sjf_iter_inv)
  show ?thesis
  proof (cases "isCheck (sjf_scan ps v)")
    case False
    then show ?thesis
      using inv' nn cnt by (simp add: sjf_progress_def sjf_iter_idle [OF inv False])
  next
    case True
    from inv True obtain c where c: "c < length ps" and pos: "0 < remainTime v ! c"
      and r: "remainTime (sjf_iter ps v) = (remainTime v)[c := remainTime v ! c - 1]"
      and n: "numsOfCompletion (sjf_iter ps v)
           = (if remainTime v ! c - 1 = 0 then numsOfCompletion v + 1 else numsOfCompletion v)"
      by (rule sjf_iter_run)
    have len: "length (remainTime v) = length ps"
      using inv by (simp add: sjf_inv_def)
    have nn': "\<forall>i<length ps. 0 \<le> remainTime (sjf_iter ps v) ! i"
    proof (intro allI impI)
      fix i assume "i < length ps"
      then show "0 \<le> remainTime (sjf_iter ps v) ! i"
        using nn pos len by (cases "i = c") (simp_all add: r)
    qed
    have "zeros (remainTime (sjf_iter ps v))
            = zeros (remainTime v) + (if remainTime v ! c - 1 = 0 then 1 else 0)"
      using c len pos by (simp add: r zeros_update)
    then have "int (numsOfCompletion (sjf_iter ps v)) = zeros (remainTime (sjf_iter ps v))"
      using cnt by (simp add: n)
    then show ?thesis
      using inv' nn' by (simp add: sjf_progress_def)
  qed
qed

lemma sjf_init_progress:
  assumes "\<forall>p\<in>set ps. 0 < BurstDuration p \<and> BurstDuration p < MaxInt64"
  shows "sjf_progress ps (sjf_init ps)"
proof -
  have "sjf_inv ps (sjf_init ps)"
    using assms by (intro sjf_init_inv) simp
  moreover have "\<forall>r\<in>set (map BurstDuration ps). r \<noteq> 0"
    using assms by auto
  then have "zeros (map BurstDuration ps) = 0"
    by (induction ps) (simp_all add: zeros_def)
  ultimately show ?thesis
    using assms by (simp add: sjf_progress_def sjf_init_def less_imp_le)
qed

lemma sjf_done_iff:
  assumes "sjf_progress ps v"
  shows "numsOfCompletion v < length ps \<longleftrightarrow> (\<exists>i<length ps. 0 < remainTime v ! i)"
proof -
  have len: "length (remainTime v) = length ps"
    using assms by (simp add: sjf_progress_def sjf_inv_def)
  have nn: "\<forall>i<length ps. 0 \<le> remainTime v ! i"
    and cnt: "int (numsOfCompletion v) = zeros (remainTime v)"
    using assms by (simp_all add: sjf_progress_def)
  have "\<not> numsOfCompletion v < length ps \<longleftrightarrow> zeros (remainTime v) = int (length (remainTime v))"
    using cnt zeros_le [of "remainTime v"] len by auto
  also have "\<dots> \<longleftrightarrow> (\<forall>r\<in>set (remainTime v). r = 0)"
    by (rule zeros_full)
  also have "\<dots> \<longleftrightarrow> (\<forall>i<length ps. remainTime v ! i = 0)"
    using len by (auto simp: all_set_conv_all_nth)
  also have "\<dots> \<longleftrightarrow> \<not> (\<exists>i<length ps. 0 < remainTime v ! i)"
    using nn by (auto simp: order.order_iff_strict)
  finally show ?thesis by blast
qed

lemma sjf_measure_decreases:
  assumes prog: "sjf_progress ps v" and more: "numsOfCompletion v < length ps"
  shows "sjf_measure ps (sjf_iter ps v) < sjf_measure ps v"
proof -
  have inv: "sjf_inv ps v" and nn: "\<forall>i<length ps. 0 \<le> remainTime v ! i"
    using prog by (simp_all add: sjf_progress_def)
  have len: "length (remainTime v) = length ps"
    using inv by (simp add: sjf_inv_def)
  let ?M = "Max (insert 0 (set (map ArrivalTime ps)))"
  show ?thesis
  proof (cases "isCheck (sjf_scan ps v)")
    case False
    obtain i where i: "i < length ps" "0 < remainTime v ! i"
      using sjf_done_iff [OF prog] more by blast
    have "\<not> eligible ps v i"
      using inv False by (rule scan_idle(2))
    then have "tNow v < ArrivalTime (ps ! i)"
      using i by (simp add: eligible_def)
    moreover have "ArrivalTime (ps ! i) \<le> ?M"
      using i(1) by (intro Max_ge) simp_all
    ultimately have "tNow v < ?M" by simp
    then show ?thesis
      by (simp add: sjf_measure_def sjf_iter_idle [OF inv False])
  next
    case True
    from inv True obtain c where c: "c < length ps" and pos: "0 < remainTime v ! c"
      and r: "remainTime (sjf_iter ps v) = (remainTime v)[c := remainTime v ! c - 1]"
      and t: "tNow (sjf_iter ps v) = tNow v + 1"
      by (rule sjf_iter_run)
    have s: "sum_list (remainTime (sjf_iter ps v)) = sum_list (remainTime v) - 1"
      using c len by (simp add: r sum_list_update_int)
    have "\<forall>x\<in>set (remainTime v). 0 \<le> x"
      using nn len by (auto simp: all_set_conv_all_nth)
    then have "0 \<le> sum_list (remainTime v)"
      by (intro sum_list_nonneg) simp
    moreover have "remainTime v ! c \<le> sum_list (remainTime v)"
      using c len \<open>\<forall>x\<in>set (remainTime v). 0 \<le> x\<close>
      by (intro member_le_sum_list) simp_all
    ultimately have "0 < sum_list (remainTime v)"
      using pos by simp
    then show ?thesis
      by (simp add: sjf_measure_def s t)
  qed
qed

lemma sjf_loop_enough_fuel:
  "sjf_progress ps v \<Longrightarrow> sjf_measure ps v \<le> k \<Longrightarrow> sjf_loop k ps v \<noteq> None"
proof (induction k arbitrary: v)
  case 0
  then have "nat (sum_list (remainTime v)) = 0"
    by (simp add: sjf_measure_def)
  have len: "length (remainTime v) = length ps"
    and nn: "\<forall>i<length ps. 0 \<le> remainTime v ! i"
    using 0 by (simp_all add: sjf_progress_def sjf_inv_def)
  have "\<forall>x\<in>set (remainTime v). 0 \<le> x"
    using nn len by (auto simp: all_set_conv_all_nth)
  moreover have "sum_list (remainTime v) \<le> 0"
    using \<open>nat (sum_list (remainTime v)) = 0\<close> by simp
  ultimately have "\<forall>x\<in>set (remainTime v). x = 0"
    by (rule sum_nonneg_zero)
  then have "\<not> (\<exists>i<length ps. 0 < remainTime v ! i)"
    using len by (auto simp: all_set_conv_all_nth)
  then have "\<not> numsOfCompletion v < length ps"
    using sjf_done_iff [OF "0.prems"(1)] by simp
  then show ?case by simp
next
  case (Suc k)
  show ?case
  proof (cases "numsOfCompletion v < length ps")
    case False
    then show ?thesis by simp
  next
    case True
    have "sjf_measure ps (sjf_iter ps v) < sjf_measure ps v"
      using Suc.prems(1) True by (rule sjf_measure_decreases)
    then have "sjf_measure ps (sjf_iter ps v) \<le> k"
      using Suc.prems(2) by simp
    then have "sjf_loop k ps (sjf_iter ps v) \<noteq> None"
      using sjf_iter_progress [OF Suc.prems(1)] Suc.IH by blast
    then show ?thesis
      using True by simp
  qed
qed

lemma SJFSchedule_terminates:
  assumes "\<forall>p\<in>set ps. 0 < BurstDuration p \<and> BurstDuration p < MaxInt64"
  shows "SJFSchedule (sjf_measure ps (sjf_init ps)) ps \<noteq> None"
proof -
  have "sjf_loop (sjf_measure ps (sjf_init ps)) ps (sjf_init ps) \<noteq> None"
    using sjf_init_progress [OF assms] by (rule sjf_loop_enough_fuel) simp
  then show ?thesis
    by (auto simp: SJFSchedule_def split: option.splits)
qed

text \<open>
  The loop of \<open>SJFPrioritySchedule\<close> always stops, in a report or in the panic of
  \<open>heap.Pop\<close> on an empty heap: every pass that does not panic uses up one tick of the
  work in the heap and still to arrive.
\<close>

lemma weight_pos: "1 \<le> weight p"
  by (simp add: weight_def)

lemma sum_weight_nonneg: "0 \<le> sum_list (map weight xs)"
  by (intro sum_list_nonneg) (auto simp: weight_def)

lemma sum_weight_filter_le:
  "sum_list (map weight (filter P xs)) \<le> sum_list (map weight xs)"
proof (induction xs)
  case Nil
  show ?case by simp
next
  case (Cons a xs)
  then show ?case
    using weight_pos [of a] by simp
qed

lemma weight_dec:
  "0 < BurstDuration p - 1 \<Longrightarrow> weight (p\<lparr>BurstDuration := BurstDuration p - 1\<rparr>) = weight p - 1"
  "\<not> 0 < BurstDuration p - 1 \<Longrightarrow> weight p = 1"
  by (simp_all add: weight_def max_def)

lemma prio_iter_measure:
  assumes it: "prio_iter qs m tb v = Inr fl" and cnt: "prio_count qs t0 v"
  shows "prio_measure qs (flow_val fl) = prio_measure qs v - 1"
proof -
  define v1 where "v1 = prio_push_arrivals qs v"
  define t where "t = currentTime v"
  obtain p h where
    pop: "heap_Pop (minHeap v1) = Inr (p, h)" and
    fv: "flow_val fl = prio_run m tb p (v1\<lparr>minHeap := h\<rparr>)"
    using it unfolding v1_def by (rule prio_iter_Inr)
  define v' where "v' = flow_val fl"
  have m1: "mset (minHeap v1) = mset (minHeap v) + mset (filter (\<lambda>q. ArrivalTime q = t) qs)"
    using push_arrivals_heap [OF cnt] by (simp add: v1_def t_def)
  have m2: "mset (minHeap v1) = add_mset p (mset h)"
    using heap_Pop_mset [OF pop] .
  have time: "currentTime v' = t + 1"
    by (simp add: v'_def fv prio_run_fields v1_def push_arrivals_fields t_def)
  have eq: "(\<lambda>q. t \<le> ArrivalTime q) = (\<lambda>q. t + 1 \<le> ArrivalTime q \<or> ArrivalTime q = t)"
    by (auto simp: fun_eq_iff)
  have "sum_list (map weight (filter (\<lambda>q. t \<le> ArrivalTime q) qs))
      = sum_list (map weight (filter (\<lambda>q. t + 1 \<le> ArrivalTime q \<or> ArrivalTime q = t) qs))"
    by (rule arg_cong [OF eq, of "\<lambda>P. sum_list (map weight (filter P qs))"])
  also have "\<dots> = sum_list (map weight (filter (\<lambda>q. t + 1 \<le> ArrivalTime q) qs))
                  + sum_list (map weight (filter (\<lambda>q. ArrivalTime q = t) qs))"
    by (rule sum_filter_disj) simp
  finally have future: "sum_list (map weight (filter (\<lambda>q. t \<le> ArrivalTime q) qs))
      = sum_list (map weight (filter (\<lambda>q. t + 1 \<le> ArrivalTime q) qs))
        + sum_list (map weight (filter (\<lambda>q. ArrivalTime q = t) qs))" .
  have heap1: "sum_list (map weight (minHeap v)) + sum_list (map weight (filter (\<lambda>q. ArrivalTime q = t) qs))
      = weight p + sum_list (map weight h)"
    using sum_list_mset_add [OF m1, of weight] sum_list_mset_insert [OF m2, of weight] by simp
  have heap': "sum_list (map weight (minHeap v')) = weight p + sum_list (map weight h) - 1"
  proof (cases "0 < BurstDuration p - 1")
    case True
    have "mset (minHeap v') = add_mset (p\<lparr>BurstDuration := BurstDuration p - 1\<rparr>) (mset h)"
      by (simp add: v'_def fv prio_run_continue [OF True] mset_heap_Push)
    from sum_list_mset_insert [OF this, of weight] show ?thesis
      by (simp add: weight_dec(1) [OF True])
  next
    case False
    have "minHeap v' = h"
      by (simp add: v'_def fv prio_run_finish [OF False])
    then show ?thesis
      by (simp add: weight_dec(2) [OF False])
  qed
  show ?thesis
    unfolding prio_measure_def v'_def [symmetric] time t_def [symmetric]
    using future heap1 heap' by simp
qed

lemma prio_iter_measure_pos:
  assumes it: "prio_iter qs m tb v = Inr fl" and cnt: "prio_count qs t0 v"
  shows "0 \<le> prio_measure qs (flow_val fl)"
  unfolding prio_measure_def
  using sum_weight_nonneg [of "minHeap (flow_val fl)"]
    sum_weight_nonneg [of "filter (\<lambda>q. currentTime (flow_val fl) \<le> ArrivalTime q) qs"]
  by simp

lemma prio_loop_enough_fuel:
  "prio_count qs t0 v \<Longrightarrow> prio_measure qs v \<le> int k \<Longrightarrow> prio_loop (Suc k) qs m tb v \<noteq> None"
proof (induction k arbitrary: v)
  case 0
  show ?case
  proof (cases "prio_iter qs m tb v")
    case (Inl e)
    then show ?thesis by simp
  next
    case (Inr fl)
    have "prio_measure qs (flow_val fl) = prio_measure qs v - 1"
      and "0 \<le> prio_measure qs (flow_val fl)"
      using Inr "0.prems"(1) by (rule prio_iter_measure, rule prio_iter_measure_pos)
    then have False using "0.prems"(2) by simp
    then show ?thesis ..
  qed
next
  case (Suc k)
  show ?case
  proof (cases "prio_iter qs m tb v")
    case (Inl e)
    then show ?thesis by simp
  next
    case (Inr fl)
    have d: "prio_measure qs (flow_val fl) = prio_measure qs v - 1"
      using Inr Suc.prems(1) by (rule prio_iter_measure)
    have c: "prio_count qs t0 (flow_val fl)"
      using Inr Suc.prems(1) by (rule prio_iter_count)
    have "prio_loop (Suc k) qs m tb (flow_val fl) \<noteq> None"
      using c d Suc.prems(2) by (intro Suc.IH) simp_all
    then show ?thesis
      using Inr by (cases fl) simp_all
  qed
qed

lemma SJFPrioritySchedule_stops:
  "SJFPrioritySchedule srt (Suc (nat (sum_list (map weight (srt ps))))) ps \<noteq> None"
proof (cases "ps = []")
  case True
  then show ?thesis by (simp add: SJFPrioritySchedule_def)
next
  case False
  let ?qs = "srt ps" and ?t0 = "ArrivalTime (ps ! 0)"
  let ?v0 = "prio_init ?t0 (length ps)"
  have "prio_measure ?qs ?v0
          = sum_list (map weight (filter (\<lambda>q. ?t0 \<le> ArrivalTime q) ?qs))"
    by (simp add: prio_measure_def prio_init_def heap_Init_def)
  also have "\<dots> \<le> sum_list (map weight ?qs)"
    by (rule sum_weight_filter_le)
  finally have "prio_measure ?qs ?v0 \<le> int (nat (sum_list (map weight ?qs)))"
    using sum_weight_nonneg [of ?qs] by simp
  then have "prio_loop (Suc (nat (sum_list (map weight ?qs)))) ?qs (processesMapIdx ?qs)
               (map BurstDuration ?qs) ?v0 \<noteq> None"
    using prio_init_count by (rule prio_loop_enough_fuel [rotated])
  then show ?thesis
    using False
    by (auto simp: SJFPrioritySchedule_def Let_def split: option.splits sum.splits)
qed

section \<open>Properties of \<open>SJFPrioritySchedule\<close>\<close>

text \<open>
  Claim C7.  A run of the preemptive priority scheduler that does not complete: with an
  idle tick between the end of \<open>P1\<close> and the arrival of \<open>P2\<close> the heap is empty when
  \<open>heap.Pop\<close> is called, and the run ends in an index panic, whatever fuel it is given
  beyond the two passes it makes.
\<close>

theorem C7_priority_idle_gap_panics:
  "SJFPrioritySchedule (insertionSort byArrival) (2 + j) [proc 1 1 0 0, proc 2 1 2 0]
     = Some (Inl IndexOutOfRange)"
proof (rule SJFPrioritySchedule_more_fuel)
  show "SJFPrioritySchedule (insertionSort byArrival) 2 [proc 1 1 0 0, proc 2 1 2 0]
     = Some (Inl IndexOutOfRange)"
    by code_simp
qed

section \<open>Runs that end with a report\<close>

lemma prio_loop_done:
  assumes run: "prio_loop k qs (processesMapIdx qs) (map BurstDuration qs)
                  (prio_init t0 (length qs)) = Some (Inr v')"
  shows "minHeap v' = []" and "ganttP v' \<noteq> []"
    and "gantt_chain t0 (ganttP v') (currentTime v')"
    and "\<forall>q\<in>set qs. pushed t0 (currentTime v') q"
    and "length (turnAroundTimes v') = length qs \<and> length (waitingTimesP v') = length qs"
    and "distinct (map ProcessID qs) \<Longrightarrow> i < length qs \<Longrightarrow> row_done qs v' i"
    and "\<forall>q\<in>set qs. 1 \<le> BurstDuration q \<Longrightarrow>
           currentTime v' - t0 = sum_list (map BurstDuration qs)"
proof -
  let ?m = "processesMapIdx qs" and ?tb = "map BurstDuration qs"
  let ?v0 = "prio_init t0 (length qs)"
  have A: "(prio_count qs t0 v' \<and> gantt_chain t0 (ganttP v') (currentTime v'))
      \<and> minHeap v' = [] \<and> insertedProcess v' = length qs \<and> ganttP v' \<noteq> []"
  proof (rule prio_loop_invariant
      [where I = "\<lambda>v. prio_count qs t0 v \<and> gantt_chain t0 (ganttP v) (currentTime v)", OF run])
    show "prio_count qs t0 ?v0 \<and> gantt_chain t0 (ganttP ?v0) (currentTime ?v0)"
      by (simp add: prio_init_count) (simp add: prio_init_def)
  next
    fix v fl
    assume "prio_count qs t0 v \<and> gantt_chain t0 (ganttP v) (currentTime v)"
      and "prio_iter qs ?m ?tb v = Inr fl"
    then show "prio_count qs t0 (flow_val fl)
        \<and> gantt_chain t0 (ganttP (flow_val fl)) (currentTime (flow_val fl))"
      using prio_iter_count prio_iter_gantt by blast
  qed
  then show "minHeap v' = []" "ganttP v' \<noteq> []"
    "gantt_chain t0 (ganttP v') (currentTime v')"
    by simp_all
  have "length (filter (pushed t0 (currentTime v')) qs) = length qs"
    using A by (simp add: prio_count_def)
  then have "q \<in> set qs \<Longrightarrow> pushed t0 (currentTime v') q" for q
    by (rule filter_all_length)
  then show all: "\<forall>q\<in>set qs. pushed t0 (currentTime v') q"
    by blast
  have len: "length (turnAroundTimes ?v0) = length qs \<and> length (waitingTimesP ?v0) = length qs"
    by (simp add: prio_init_def)
  have L: "(length (turnAroundTimes v') = length qs \<and> length (waitingTimesP v') = length qs)
      \<and> minHeap v' = [] \<and> insertedProcess v' = length qs \<and> ganttP v' \<noteq> []"
  proof (rule prio_loop_invariant
      [where I = "\<lambda>v. length (turnAroundTimes v) = length qs \<and> length (waitingTimesP v) = length qs",
       OF run len])
    fix v fl
    assume l: "length (turnAroundTimes v) = length qs \<and> length (waitingTimesP v) = length qs"
      and it: "prio_iter qs ?m ?tb v = Inr fl"
    obtain p h where
      fv: "flow_val fl = prio_run ?m ?tb p ((prio_push_arrivals qs v)\<lparr>minHeap := h\<rparr>)"
      using it by (rule prio_iter_Inr)
    show "length (turnAroundTimes (flow_val fl)) = length qs
        \<and> length (waitingTimesP (flow_val fl)) = length qs"
      using l by (cases "BurstDuration p - 1 > 0")
        (simp_all add: fv prio_run_continue prio_run_finish push_arrivals_fields)
  qed
  then show "length (turnAroundTimes v') = length qs \<and> length (waitingTimesP v') = length qs"
    by simp
  {
    assume dist: "distinct (map ProcessID qs)" and i: "i < length qs"
    have B: "(prio_count qs t0 v' \<and> prio_stats qs t0 v')
        \<and> minHeap v' = [] \<and> insertedProcess v' = length qs \<and> ganttP v' \<noteq> []"
    proof (rule prio_loop_invariant
        [where I = "\<lambda>v. prio_count qs t0 v \<and> prio_stats qs t0 v", OF run])
      show "prio_count qs t0 ?v0 \<and> prio_stats qs t0 ?v0"
        by (simp add: prio_init_count prio_init_stats)
    next
      fix v fl
      assume "prio_count qs t0 v \<and> prio_stats qs t0 v"
        and "prio_iter qs ?m ?tb v = Inr fl"
      then show "prio_count qs t0 (flow_val fl) \<and> prio_stats qs t0 (flow_val fl)"
        using prio_iter_count prio_iter_stats dist by blast
    qed
    have "pushed t0 (currentTime v') (qs ! i)"
      using all i by simp
    then show "row_done qs v' i"
      using B i by (auto simp: prio_stats_def)
  }
  {
    assume pos: "\<forall>q\<in>set qs. 1 \<le> BurstDuration q"
    have C: "(prio_count qs t0 v' \<and> prio_work qs t0 v')
        \<and> minHeap v' = [] \<and> insertedProcess v' = length qs \<and> ganttP v' \<noteq> []"
    proof (rule prio_loop_invariant
        [where I = "\<lambda>v. prio_count qs t0 v \<and> prio_work qs t0 v", OF run])
      show "prio_count qs t0 ?v0 \<and> prio_work qs t0 ?v0"
        by (simp add: prio_init_count prio_init_work)
    next
      fix v fl
      assume "prio_count qs t0 v \<and> prio_work qs t0 v"
        and "prio_iter qs ?m ?tb v = Inr fl"
      then show "prio_count qs t0 (flow_val fl) \<and> prio_work qs t0 (flow_val fl)"
        using prio_iter_count prio_iter_work pos by blast
    qed
    have "filter (pushed t0 (currentTime v')) qs = qs"
      using all by simp
    then show "currentTime v' - t0 = sum_list (map BurstDuration qs)"
      using C by (auto simp: prio_work_def)
  }
qed

lemma SJFPrioritySchedule_Inr:
  assumes "SJFPrioritySchedule srt fuel ps = Some (Inr (ps', r))"
  obtains v' where "ps \<noteq> []" and "ps' = srt ps"
    and "prio_loop fuel (srt ps) (processesMapIdx (srt ps)) (map BurstDuration (srt ps))
           (prio_init (ArrivalTime (hd ps)) (length ps)) = Some (Inr v')"
    and "r = mkReport (srt ps) (ganttP v') (waitingTimesP v') (turnAroundTimes v')"
  using assms
  by (auto simp: SJFPrioritySchedule_def Let_def hd_conv_nth
      split: if_splits option.splits sum.splits)

lemma mkReport_fields:
  "repGantt (mkReport ps g ws ts) = g"
  "repSchedule (mkReport ps g ws ts) = map (mkRow ps ws ts) [0..<length ps]"
  by (simp_all add: mkReport_def Let_def)



lemma mkRow_rows_of: "rows_of ps (map (mkRow ps ws ts) [0..<length ps])"
proof -
  have "map (\<lambda>i. (ProcessID (ps ! i), Priority (ps ! i), BurstDuration (ps ! i),
                    ArrivalTime (ps ! i))) [0..<length ps]
          = map (\<lambda>p. (ProcessID p, Priority p, BurstDuration p, ArrivalTime p))
              (map ((!) ps) [0..<length ps])"
    by simp
  then show ?thesis
    by (simp add: rows_of_def mkRow_def comp_def map_nth)
qed

lemma mkRow_ok: "row_ok (mkRow ps ws ts i) \<longleftrightarrow> ts ! i = BurstDuration (ps ! i) + ws ! i"
  by (simp add: row_ok_def mkRow_def)

lemma list_all_upt: "list_all P (map f [0..<n]) \<longleftrightarrow> (\<forall>i<n. P (f i))"
  by (auto simp: list_all_iff)

lemma sjf_loop_invariant:
  assumes "sjf_loop k ps v = Some v'" and "I v"
    and step: "\<And>v. I v \<Longrightarrow> I (sjf_iter ps v)"
  shows "I v'"
  using assms(1,2)
proof (induction k arbitrary: v)
  case 0
  then show ?case by (simp split: if_splits)
next
  case (Suc k)
  then show ?case
    using step by (auto split: if_splits)
qed

lemma SJFSchedule_Some:
  assumes "SJFSchedule fuel ps = Some (ps', r)"
  obtains v where "ps' = ps" and "sjf_loop fuel ps (sjf_init ps) = Some v"
    and "r = mkReport ps (ganttS v) (waitingTimes v)
               (findTurnAroundTimes ps (waitingTimes v))"
  using assms by (auto simp: SJFSchedule_def split: option.splits)

lemma sjf_iter_waiting:
  "waitingTimes (sjf_iter ps v) = waitingTimes v
   \<or> (\<exists>c x. 0 \<le> x \<and> waitingTimes (sjf_iter ps v) = (waitingTimes v)[c := x])"
proof (cases "isCheck (sjf_scan ps v)")
  case False
  then show ?thesis
    by (simp add: sjf_iter_def Let_def scan_fields)
next
  case True
  then have it: "sjf_iter ps v = sjf_run ps (sjf_scan ps v)"
    by (simp add: sjf_iter_def Let_def)
  from sjf_run_waiting [of ps "sjf_scan ps v"] show ?thesis
  proof
    assume "waitingTimes (sjf_run ps (sjf_scan ps v)) = waitingTimes (sjf_scan ps v)"
    then show ?thesis by (simp add: it scan_fields)
  next
    assume a: "waitingTimes (sjf_run ps (sjf_scan ps v))
       = (waitingTimes (sjf_scan ps v))[curIdx (sjf_scan ps v) :=
            max 0 (tNow (sjf_scan ps v) + 1 - BurstDuration (ps ! curIdx (sjf_scan ps v))
                     - ArrivalTime (ps ! curIdx (sjf_scan ps v)))]"
    have "0 \<le> max (0::int) (tNow (sjf_scan ps v) + 1 - BurstDuration (ps ! curIdx (sjf_scan ps v))
                     - ArrivalTime (ps ! curIdx (sjf_scan ps v)))"
      by simp
    then show ?thesis
      unfolding it a scan_fields by blast
  qed
qed

lemma sjf_iter_waits_ok:
  assumes "waits_ok n (waitingTimes (v :: sjf_vars))"
  shows "waits_ok n (waitingTimes (sjf_iter ps v))"
proof -
  from sjf_iter_waiting [of ps v] show ?thesis
  proof
    assume "waitingTimes (sjf_iter ps v) = waitingTimes v"
    then show ?thesis using assms by simp
  next
    assume "\<exists>c x. 0 \<le> x \<and> waitingTimes (sjf_iter ps v) = (waitingTimes v)[c := x]"
    then obtain c x where x: "0 \<le> x"
      and eq: "waitingTimes (sjf_iter ps v) = (waitingTimes v)[c := x]"
      by blast
    have "set ((waitingTimes v)[c := x]) \<subseteq> insert x (set (waitingTimes v))"
      by (rule set_update_subset_insert)
    then show ?thesis
      using assms x unfolding eq waits_ok_def by auto
  qed
qed

lemma sjf_loop_waits_ok:
  assumes "sjf_loop k ps (sjf_init ps) = Some v"
  shows "waits_ok (length ps) (waitingTimes v)"
proof (rule sjf_loop_invariant
    [where I = "\<lambda>v :: sjf_vars. waits_ok (length ps) (waitingTimes v)", OF assms])
  show "waits_ok (length ps) (waitingTimes (sjf_init ps))"
    by (simp add: waits_ok_def sjf_init_def)
next
  fix v :: sjf_vars
  assume "waits_ok (length ps) (waitingTimes v)"
  then show "waits_ok (length ps) (waitingTimes (sjf_iter ps v))"
    by (rule sjf_iter_waits_ok)
qed

lemma sjf_rows:
  assumes "SJFSchedule fuel ps = Some (ps', r)"
  shows "rows_of ps (repSchedule r)" and "list_all row_ok (repSchedule r)"
    and "list_all (\<lambda>row. 0 \<le> colWait row) (repSchedule r)" and "ps' = ps"
proof -
  obtain v where run: "sjf_loop fuel ps (sjf_init ps) = Some v"
    and r: "r = mkReport ps (ganttS v) (waitingTimes v)
                  (findTurnAroundTimes ps (waitingTimes v))"
    and p: "ps' = ps"
    using assms by (rule SJFSchedule_Some)
  show "ps' = ps" by (rule p)
  show "rows_of ps (repSchedule r)"
    by (simp add: r mkReport_fields mkRow_rows_of)
  show "list_all row_ok (repSchedule r)"
    by (simp add: r mkReport_fields list_all_upt mkRow_ok findTurnAroundTimes_def)
  have w: "waits_ok (length ps) (waitingTimes v)"
    using run by (rule sjf_loop_waits_ok)
  show "list_all (\<lambda>row. 0 \<le> colWait row) (repSchedule r)"
    using w by (simp add: r mkReport_fields list_all_upt mkRow_def waits_ok_def)
qed

lemma prio_rows:
  assumes run: "SJFPrioritySchedule srt fuel ps = Some (Inr (ps', r))"
    and perm: "mset (srt ps) = mset ps"
  shows "ps' = srt ps" and "rows_of ps' (repSchedule r)"
    and "distinct (map ProcessID ps) \<Longrightarrow> list_all row_ok (repSchedule r)"
    and "distinct (map ProcessID ps) \<Longrightarrow> list_all (\<lambda>row. 0 \<le> colWait row) (repSchedule r)"
    and "gantt_chain (ArrivalTime (hd ps)) (repGantt r)
           (ArrivalTime (hd ps) + timeline_total (repGantt r))"
    and "repGantt r \<noteq> []"
    and "\<forall>p\<in>set ps. 0 < BurstDuration p \<Longrightarrow>
           timeline_total (repGantt r) = sum_list (map BurstDuration ps)"
    and "\<forall>p\<in>set ps. ArrivalTime (hd ps) \<le> ArrivalTime p"
proof -
  let ?qs = "srt ps" and ?t0 = "ArrivalTime (hd ps)"
  obtain v' where ne: "ps \<noteq> []" and p: "ps' = srt ps"
    and loop: "prio_loop fuel ?qs (processesMapIdx ?qs) (map BurstDuration ?qs)
           (prio_init ?t0 (length ps)) = Some (Inr v')"
    and r: "r = mkReport ?qs (ganttP v') (waitingTimesP v') (turnAroundTimes v')"
    using run by (rule SJFPrioritySchedule_Inr)
  have len: "length ?qs = length ps"
    using perm by (rule mset_eq_length)
  have set: "set ?qs = set ps"
    using perm by (rule mset_eq_setD)
  have loop': "prio_loop fuel ?qs (processesMapIdx ?qs) (map BurstDuration ?qs)
           (prio_init ?t0 (length ?qs)) = Some (Inr v')"
    using loop len by simp
  note fin = prio_loop_done [OF loop']
  show "ps' = srt ps" by (rule p)
  show "rows_of ps' (repSchedule r)"
    by (simp add: r p mkReport_fields mkRow_rows_of)
  show "repGantt r \<noteq> []"
    using fin(2) by (simp add: r mkReport_fields)
  have chain: "gantt_chain ?t0 (ganttP v') (currentTime v')"
    by (rule fin(3))
  then have "timeline_total (ganttP v') = currentTime v' - ?t0"
    by (rule gantt_chain_total)
  then show "gantt_chain ?t0 (repGantt r) (?t0 + timeline_total (repGantt r))"
    using chain by (simp add: r mkReport_fields)
  show "\<forall>p\<in>set ps. ?t0 \<le> ArrivalTime p"
    using fin(4) set by (simp add: pushed_def)
  {
    assume "\<forall>p\<in>set ps. 0 < BurstDuration p"
    then have "\<forall>q\<in>set ?qs. 1 \<le> BurstDuration q"
      using set by auto
    then have "currentTime v' - ?t0 = sum_list (map BurstDuration ?qs)"
      by (rule fin(7))
    moreover have "sum_list (map BurstDuration ?qs) = sum_list (map BurstDuration ps)"
      using perm by (rule sum_list_mset_cong)
    ultimately show "timeline_total (repGantt r) = sum_list (map BurstDuration ps)"
      using gantt_chain_total [OF chain] by (simp add: r mkReport_fields)
  }
  {
    assume "distinct (map ProcessID ps)"
    moreover have "mset (map ProcessID ?qs) = mset (map ProcessID ps)"
      using perm by simp
    ultimately have dist: "distinct (map ProcessID ?qs)"
      using mset_eq_imp_distinct_iff by blast
    have rd: "row_done ?qs v' i" if "i < length ?qs" for i
      using dist that by (rule fin(6))
    show "list_all row_ok (repSchedule r)"
      using rd by (simp add: r mkReport_fields list_all_upt mkRow_ok row_done_def)
    show "list_all (\<lambda>row. 0 \<le> colWait row) (repSchedule r)"
      using rd by (simp add: r mkReport_fields list_all_upt mkRow_def row_done_def)
  }
qed

section \<open>The timeline of \<open>FCFSSchedule\<close>\<close>





section \<open>The claims about all policies\<close>



text \<open>
  Claim C9, as the code has it.  Under shortest remaining time first and under the
  priority policy (unique ids) no reported waiting time is negative; shortest remaining
  time first writes the completion tick minus burst minus arrival, clamped at 0.
\<close>

theorem C9_waiting_nonnegative_srtf_priority:
  "(SJFSchedule fuel ps = Some (ps', r) \<longrightarrow>
      list_all (\<lambda>row. 0 \<le> colWait row) (repSchedule r))
   \<and> (SJFPrioritySchedule srt fuel' ps = Some (Inr (ps'', r'))
        \<and> distinct (map ProcessID ps) \<and> mset (srt ps) = mset ps \<longrightarrow>
      list_all (\<lambda>row. 0 \<le> colWait row) (repSchedule r'))
   \<and> waitingTimes (sjf_complete ps v)
       = (waitingTimes v)[curIdx v :=
            max 0 (tNow v + 1 - BurstDuration (ps ! curIdx v) - ArrivalTime (ps ! curIdx v))]"
proof (intro conjI impI)
  assume "SJFSchedule fuel ps = Some (ps', r)"
  then show "list_all (\<lambda>row. 0 \<le> colWait row) (repSchedule r)"
    by (rule sjf_rows(3))
next
  assume "SJFPrioritySchedule srt fuel' ps = Some (Inr (ps'', r'))
        \<and> distinct (map ProcessID ps) \<and> mset (srt ps) = mset ps"
  then show "list_all (\<lambda>row. 0 \<le> colWait row) (repSchedule r')"
    using prio_rows(4) by blast
next
  show "waitingTimes (sjf_complete ps v)
       = (waitingTimes v)[curIdx v :=
            max 0 (tNow v + 1 - BurstDuration (ps ! curIdx v) - ArrivalTime (ps ! curIdx v))]"
    by (simp add: sjf_complete_def Let_def max_def)
qed



section \<open>Concrete runs\<close>



lemma prio_three_run:
  "SJFPrioritySchedule (insertionSort byArrival) 5 [proc 1 3 0 2, proc 2 1 2 1, proc 3 1 1 3]
     = Some (Inr ([proc 1 3 0 2, proc 3 1 1 3, proc 2 1 2 1],
        \<lparr>repGantt =
           [\<lparr>PID = 1, Start = 0, Stop = 2\<rparr>, \<lparr>PID = 2, Start = 2, Stop = 3\<rparr>,
            \<lparr>PID = 1, Start = 3, Stop = 4\<rparr>, \<lparr>PID = 3, Start = 4, Stop = 5\<rparr>],
           repSchedule =
             [\<lparr>colID = 1, colPriority = 2, colBurst = 3, colArrival = 0,
                 colWait = 1, colTurnaround = 4, colExit = 4\<rparr>,
              \<lparr>colID = 3, colPriority = 3, colBurst = 1, colArrival = 1,
                 colWait = 3, colTurnaround = 4, colExit = 5\<rparr>,
              \<lparr>colID = 2, colPriority = 1, colBurst = 1, colArrival = 2,
                 colWait = 0, colTurnaround = 1, colExit = 3\<rparr>],
           repAveWait = Some (4 / 3), repAveTurnaround = Some 3,
           repAveThroughput = Some (3 / 5)\<rparr>))"
  by code_simp

lemma sjf_three_run:
  "SJFSchedule 5 [proc 1 3 0 2, proc 2 1 2 1, proc 3 1 1 3]
     = Some ([proc 1 3 0 2, proc 2 1 2 1, proc 3 1 1 3],
   \<lparr>repGantt =
      [\<lparr>PID = 1, Start = 0, Stop = 0\<rparr>, \<lparr>PID = 3, Start = 1, Stop = 2\<rparr>,
       \<lparr>PID = 2, Start = 2, Stop = 3\<rparr>, \<lparr>PID = 1, Start = 3, Stop = 5\<rparr>],
      repSchedule =
        [\<lparr>colID = 1, colPriority = 2, colBurst = 3, colArrival = 0,
            colWait = 2, colTurnaround = 5, colExit = 5\<rparr>,
         \<lparr>colID = 2, colPriority = 1, colBurst = 1, colArrival = 2,
            colWait = 0, colTurnaround = 1, colExit = 3\<rparr>,
         \<lparr>colID = 3, colPriority = 3, colBurst = 1, colArrival = 1,
            colWait = 0, colTurnaround = 1, colExit = 2\<rparr>],
      repAveWait = Some (2 / 3), repAveTurnaround = Some (7 / 3),
      repAveThroughput = Some (3 / 5)\<rparr>)"
  by code_simp

lemma three_sorted:
  "mset (insertionSort byArrival [proc 1 3 0 2, proc 2 1 2 1, proc 3 1 1 3])
     = mset [proc 1 3 0 2, proc 2 1 2 1, proc 3 1 1 3]"
  "sorted (map ArrivalTime (insertionSort byArrival [proc 1 3 0 2, proc 2 1 2 1, proc 3 1 1 3]))"
  by code_simp+

lemma three_regular:
  "distinct (map ProcessID [proc 1 3 0 2, proc 2 1 2 1, proc 3 1 1 3])"
  "fcfs_regular [proc 1 3 0 2, proc 2 1 2 1, proc 3 1 1 3]"
  "\<forall>p\<in>set [proc 1 3 0 2, proc 2 1 2 1, proc 3 1 1 3]. 0 < BurstDuration p"
  by (simp_all add: proc_def fcfs_regular_def)

lemma sjf_three_split:
  "SJFSchedule 5 [proc 1 3 0 2, proc 2 1 2 1, proc 3 1 1 3]
     = Some (fst (the (SJFSchedule 5 [proc 1 3 0 2, proc 2 1 2 1, proc 3 1 1 3])),
             snd (the (SJFSchedule 5 [proc 1 3 0 2, proc 2 1 2 1, proc 3 1 1 3])))"
  by (simp add: sjf_three_run)

lemma prio_three_split:
  "SJFPrioritySchedule (insertionSort byArrival) 5 [proc 1 3 0 2, proc 2 1 2 1, proc 3 1 1 3]
     = Some (Inr (fst (projr (the (SJFPrioritySchedule (insertionSort byArrival) 5 [proc 1 3 0 2, proc 2 1 2 1, proc 3 1 1 3]))),
                  snd (projr (the (SJFPrioritySchedule (insertionSort byArrival) 5 [proc 1 3 0 2, proc 2 1 2 1, proc 3 1 1 3])))))"
  by (simp add: prio_three_run)



text \<open>
  Claim C9 as stated fails for first come, first served: a single process arriving at
  tick 5 is reported with waiting time \<open>0 - 5\<close>.
\<close>

theorem C9_fcfs_negative_wait_counterexample:
  "map colWait (repSchedule (snd (FCFSSchedule [proc 1 1 5 0]))) = [- 5]"
  by (simp add: FCFSSchedule_def fcfs_loop_def fcfs_body_def fcfs_init_def proc_def Let_def)

text \<open>Claim C9 on a three-process input.\<close>

theorem C9_waiting_nonnegative_srtf_priority_witness:
  "list_all (\<lambda>row. 0 \<le> colWait row) (repSchedule (snd (the (SJFSchedule 5 [proc 1 3 0 2, proc 2 1 2 1, proc 3 1 1 3]))))
   \<and> distinct (map ProcessID [proc 1 3 0 2, proc 2 1 2 1, proc 3 1 1 3])
   \<and> list_all (\<lambda>row. 0 \<le> colWait row) (repSchedule (snd (projr (the (SJFPrioritySchedule (insertionSort byArrival) 5 [proc 1 3 0 2, proc 2 1 2 1, proc 3 1 1 3])))))"
proof -
  note T = C9_waiting_nonnegative_srtf_priority
    [of 5 "[proc 1 3 0 2, proc 2 1 2 1, proc 3 1 1 3]" "fst (the (SJFSchedule 5 [proc 1 3 0 2, proc 2 1 2 1, proc 3 1 1 3]))" "snd (the (SJFSchedule 5 [proc 1 3 0 2, proc 2 1 2 1, proc 3 1 1 3]))" "insertionSort byArrival" 5 "fst (projr (the (SJFPrioritySchedule (insertionSort byArrival) 5 [proc 1 3 0 2, proc 2 1 2 1, proc 3 1 1 3])))" "snd (projr (the (SJFPrioritySchedule (insertionSort byArrival) 5 [proc 1 3 0 2, proc 2 1 2 1, proc 3 1 1 3])))"]
  have f0: "list_all (\<lambda>row. 0 \<le> colWait row) (repSchedule (snd (the (SJFSchedule 5 [proc 1 3 0 2, proc 2 1 2 1, proc 3 1 1 3]))))"
    using T sjf_three_split by blast
  have f1: "distinct (map ProcessID [proc 1 3 0 2, proc 2 1 2 1, proc 3 1 1 3])"
    by (rule three_regular(1))
  have f2: "list_all (\<lambda>row. 0 \<le> colWait row) (repSchedule (snd (projr (the (SJFPrioritySchedule (insertionSort byArrival) 5 [proc 1 3 0 2, proc 2 1 2 1, proc 3 1 1 3])))))"
    using T prio_three_split three_regular(1) three_sorted(1) by blast
  show ?thesis
    by (intro conjI) (rule f0 f1 f2)+
qed






end
